theory Spec2Isabelle
  imports Complex_Main "HOL-Library.Sublist"
begin

section \<open>Text\<close>

text \<open>
  A Python \<open>str\<close> is a sequence of code points. The model is over the code points
  below 256: a \<^typ>\<open>char\<close> is read as the code point of the same number, and the
  string methods below are Python's on that range.
\<close>

definition isspace :: "char \<Rightarrow> bool" where
  \<comment> \<open>\<open>str.isspace\<close> on one code point below 256\<close>
  "isspace c =
     (let n = (of_char c :: nat)
      in (9 \<le> n \<and> n \<le> 13) \<or> (28 \<le> n \<and> n \<le> 32) \<or> n = 133 \<or> n = 160)"

definition strip :: "string \<Rightarrow> string" where
  \<comment> \<open>\<open>s.strip()\<close>\<close>
  "strip s = rev (dropWhile isspace (rev (dropWhile isspace s)))"

definition lower_char :: "char \<Rightarrow> char" where
  \<comment> \<open>\<open>str.lower\<close> on one code point below 256: A-Z, and U+00C0-U+00DE but U+00D7\<close>
  "lower_char c =
     (let n = (of_char c :: nat)
      in if (65 \<le> n \<and> n \<le> 90) \<or> (192 \<le> n \<and> n \<le> 222 \<and> n \<noteq> 215)
         then char_of (n + 32) else c)"

definition lower :: "string \<Rightarrow> string" where
  \<comment> \<open>\<open>s.lower()\<close>\<close>
  "lower s = map lower_char s"

definition startswith :: "string \<Rightarrow> string list \<Rightarrow> bool" where
  \<comment> \<open>\<open>s.startswith(tuple)\<close>\<close>
  "startswith s ps = list_ex (\<lambda>p. prefix p s) ps"

subsection \<open>The pattern \<open><[^>]+>\<close>\<close>

definition match_tag :: "string \<Rightarrow> (string \<times> string) option" where
  \<comment> \<open>the text right after a \<open><\<close>: the pattern matches there when a maximal run of
      one or more characters other than \<open>>\<close> is followed by \<open>>\<close>; the result is
      that run (group 1) and the text after the match\<close>
  "match_tag cs =
     (let mid = takeWhile (\<lambda>c. c \<noteq> CHR ''>'') cs;
          rest = dropWhile (\<lambda>c. c \<noteq> CHR ''>'') cs
      in if mid \<noteq> [] \<and> rest \<noteq> [] then Some (mid, tl rest) else None)"

function sub_tags :: "string \<Rightarrow> string" where
  \<comment> \<open>\<open>re.sub(r"<[^>]+>", "", s)\<close>: scan from the left, drop every match, go on
      after it\<close>
  "sub_tags [] = []"
| "sub_tags (c # cs) =
     (if c = CHR ''<'' then
        (case match_tag cs of
           Some (mid, rest) \<Rightarrow> sub_tags rest
         | None \<Rightarrow> c # sub_tags cs)
      else c # sub_tags cs)"
  by pat_completeness auto
termination
proof (relation "measure length")
  show "wf (measure length)" by simp
next
  fix c :: char and cs x2 mid rest
  assume "match_tag cs = Some x2" and "(mid, rest) = x2"
  then have "rest = tl (dropWhile (\<lambda>c. c \<noteq> CHR ''>'') cs)"
    by (auto simp: match_tag_def Let_def split: if_splits)
  moreover have "length (dropWhile (\<lambda>c. c \<noteq> CHR ''>'') cs) \<le> length cs"
    by (rule length_dropWhile_le)
  ultimately have "length rest \<le> length cs"
    by simp
  then show "(rest, c # cs) \<in> measure length" by simp
qed simp_all

fun search_tag :: "string \<Rightarrow> string option" where
  \<comment> \<open>\<open>re.search(r"<([^>]+)>", s)\<close>: group 1 of the leftmost match\<close>
  "search_tag [] = None"
| "search_tag (c # cs) =
     (if c = CHR ''<'' then
        (case match_tag cs of
           Some (mid, rest) \<Rightarrow> Some mid
         | None \<Rightarrow> search_tag cs)
      else search_tag cs)"

definition sanitize :: "string \<Rightarrow> string" where
  \<comment> \<open>line 252, on a \<open>str\<close>: \<open>re.sub(r"<[^>]+>", "", reply).strip()\<close>\<close>
  "sanitize reply = strip (sub_tags reply)"

definition greeting_tokens :: "string list" where
  "greeting_tokens = [''hello'', ''hi'', ''dear'', ''thank you'']"

definition normalize_greeting :: "string \<Rightarrow> string" where
  \<comment> \<open>lines 254-255\<close>
  "normalize_greeting reply =
     (if \<not> startswith (lower reply) greeting_tokens
      then ''Hello,\<newline>\<newline>'' @ reply
      else reply)"

section \<open>Decoded JSON\<close>

text \<open>
  What \<open>json.loads\<close> returns: \<open>None\<close>, a \<open>bool\<close>, an \<open>int\<close>, a \<open>float\<close>, a
  \<open>str\<close>, a \<open>list\<close> or a \<open>dict\<close> with \<open>str\<close> keys. A dict is an association list
  in insertion order. The program never computes with a float, it only tests one for
  truth, so a float read from a decimal literal is kept as that decimal,
  \<open>FDec m e\<close> for \<open>m * 10 ^ e\<close>; the float itself is the binary64 nearest to it.
\<close>

datatype pyfloat = FDec int int | FInf | FNegInf | FNaN

datatype json =
    JNull
  | JBool bool
  | JInt int
  | JFloat pyfloat
  | JString string
  | JArray "json list"
  | JObject "(string \<times> json) list"

datatype py_error = TypeError | AttributeError

fun float_truthy :: "pyfloat \<Rightarrow> bool" where
  \<comment> \<open>\<open>bool(x)\<close> is \<open>x != 0.0\<close>. A decimal rounds to zero exactly when its magnitude
      is at most \<open>2 ^ -1075\<close>, half the least positive binary64 (ties go to even).\<close>
  "float_truthy (FDec m e) =
     (m \<noteq> 0 \<and> (0 \<le> e \<or> 10 ^ nat (- e) < \<bar>m\<bar> * 2 ^ 1075))"
| "float_truthy FInf = True"
| "float_truthy FNegInf = True"
| "float_truthy FNaN = True"

fun truthy :: "json \<Rightarrow> bool" where
  \<comment> \<open>Python's truth value of a decoded value\<close>
  "truthy JNull = False"
| "truthy (JBool b) = b"
| "truthy (JInt i) = (i \<noteq> 0)"
| "truthy (JFloat x) = float_truthy x"
| "truthy (JString s) = (s \<noteq> [])"
| "truthy (JArray xs) = (xs \<noteq> [])"
| "truthy (JObject kvs) = (kvs \<noteq> [])"

definition dict_get :: "(string \<times> json) list \<Rightarrow> string \<Rightarrow> json \<Rightarrow> json" where
  \<comment> \<open>\<open>d.get(key, default)\<close>\<close>
  "dict_get d key dflt = (case map_of d key of Some v \<Rightarrow> v | None \<Rightarrow> dflt)"

section \<open>Reply selection\<close>

definition SAFE_DEFAULT_REPLY :: string where
  \<comment> \<open>lines 234-237\<close>
  "SAFE_DEFAULT_REPLY =
     ''Thank you for reaching out. I will review your message and respond shortly.\<newline>\<newline>'' @
     ''Best regards,\<newline>EMAYAN R M''"

definition choose_draft :: "json option \<Rightarrow> py_error + json" where
  \<comment> \<open>lines 239-250 of \<open>main_agent_workflow\<close>: the value bound to \<open>reply\<close>. A truthy
      \<open>ai_output\<close> that is no dict has no \<open>get\<close>.\<close>
  "choose_draft ai_output =
     (case ai_output of
        None \<Rightarrow> Inr (JString SAFE_DEFAULT_REPLY)
      | Some out \<Rightarrow>
          if \<not> truthy out then Inr (JString SAFE_DEFAULT_REPLY)
          else
            (case out of
               JObject d \<Rightarrow>
                 (let is_technical = dict_get d ''is_technical'' (JBool False);
                      request_meeting = dict_get d ''request_meeting'' (JBool False)
                  in if truthy is_technical \<and> truthy request_meeting then
                       Inr (dict_get d ''meeting_suggestion_draft'' (JString SAFE_DEFAULT_REPLY))
                     else if truthy is_technical then
                       Inr (dict_get d ''simple_reply_draft'' (JString SAFE_DEFAULT_REPLY))
                     else
                       Inr (dict_get d ''non_technical_reply_draft'' (JString SAFE_DEFAULT_REPLY)))
             | _ \<Rightarrow> Inl AttributeError))"

definition finish_reply :: "json \<Rightarrow> py_error + string" where
  \<comment> \<open>lines 252-255: \<open>re.sub\<close> raises \<open>TypeError\<close> on anything but a \<open>str\<close>\<close>
  "finish_reply reply =
     (case reply of
        JString s \<Rightarrow> Inr (normalize_greeting (sanitize s))
      | _ \<Rightarrow> Inl TypeError)"

definition select_reply :: "json option \<Rightarrow> py_error + string" where
  \<comment> \<open>lines 234-255 of \<open>main_agent_workflow\<close>, from \<open>ai_output\<close> to the text that is
      sent\<close>
  "select_reply ai_output =
     (case choose_draft ai_output of
        Inl e \<Rightarrow> Inl e
      | Inr reply \<Rightarrow> finish_reply reply)"

section \<open>The JSON decoder\<close>

text \<open>
  \<open>json.loads\<close> on a \<open>str\<close>, as the standard library's decoder reads it with its
  default settings: whitespace is space, tab, line feed and carriage return; a string
  may not hold a raw control character; besides the JSON grammar the literals \<open>NaN\<close>,
  \<open>Infinity\<close> and \<open>-Infinity\<close> are read; a repeated key keeps its first place and
  its last value; anything but whitespace after the value is an error. An escape
  \<open>\uXXXX\<close> that denotes a code point from 256 on has no image in this model of text
  and is rejected here. The nesting of the text is taken to stay within the
  interpreter's recursion limit, and an integer literal within its digit limit.
  The result \<open>None\<close> of the scanning functions is a raised error.
\<close>

definition json_ws :: "char \<Rightarrow> bool" where
  "json_ws c = (c = CHR '' '' \<or> c = CHR 0x09 \<or> c = CHR ''\<newline>'' \<or> c = CHR 0x0D)"

definition skip_ws :: "string \<Rightarrow> string" where
  "skip_ws s = dropWhile json_ws s"

definition digit :: "char \<Rightarrow> bool" where
  "digit c = (48 \<le> (of_char c :: nat) \<and> (of_char c :: nat) \<le> 57)"

definition digits_val :: "string \<Rightarrow> int" where
  \<comment> \<open>the number that a run of decimal digits denotes\<close>
  "digits_val ds = foldl (\<lambda>a c. 10 * a + (of_char c - 48)) 0 ds"

definition hex_digit :: "char \<Rightarrow> nat option" where
  "hex_digit c =
     (let n = (of_char c :: nat)
      in if 48 \<le> n \<and> n \<le> 57 then Some (n - 48)
         else if 97 \<le> n \<and> n \<le> 102 then Some (n - 87)
         else if 65 \<le> n \<and> n \<le> 70 then Some (n - 55)
         else None)"

definition decode_uXXXX :: "char \<Rightarrow> char \<Rightarrow> char \<Rightarrow> char \<Rightarrow> nat option" where
  "decode_uXXXX a b c d =
     (case (hex_digit a, hex_digit b, hex_digit c, hex_digit d) of
        (Some x, Some y, Some z, Some w) \<Rightarrow> Some (((x * 16 + y) * 16 + z) * 16 + w)
      | _ \<Rightarrow> None)"

definition backslash :: "char \<Rightarrow> char option" where
  "backslash e =
     (if e = CHR 0x22 then Some (CHR 0x22)
      else if e = CHR 0x5C then Some (CHR 0x5C)
      else if e = CHR ''/'' then Some (CHR ''/'')
      else if e = CHR ''b'' then Some (CHR 0x08)
      else if e = CHR ''f'' then Some (CHR 0x0C)
      else if e = CHR ''n'' then Some (CHR ''\<newline>'')
      else if e = CHR ''r'' then Some (CHR 0x0D)
      else if e = CHR ''t'' then Some (CHR 0x09)
      else None)"

definition prepend :: "char \<Rightarrow> (string \<times> string) option \<Rightarrow> (string \<times> string) option" where
  "prepend c r = (case r of None \<Rightarrow> None | Some (t, rest) \<Rightarrow> Some (c # t, rest))"

fun scanstring :: "string \<Rightarrow> (string \<times> string) option" where
  \<comment> \<open>the text after an opening quote: the decoded string and the text after the
      closing quote\<close>
  "scanstring [] = None"
| "scanstring (c # cs) =
     (if c = CHR 0x22 then Some ([], cs)
      else if c = CHR 0x5C then
        (case cs of
           [] \<Rightarrow> None
         | e # cs' \<Rightarrow>
             if e = CHR ''u'' then
               (case cs' of
                  h1 # h2 # h3 # h4 # cs'' \<Rightarrow>
                    (case decode_uXXXX h1 h2 h3 h4 of
                       None \<Rightarrow> None
                     | Some n \<Rightarrow> if n < 256 then prepend (char_of n) (scanstring cs'') else None)
                | _ \<Rightarrow> None)
             else
               (case backslash e of
                  None \<Rightarrow> None
                | Some ch \<Rightarrow> prepend ch (scanstring cs')))
      else if (of_char c :: nat) < 32 then None
      else prepend c (scanstring cs))"

definition scan_exponent :: "string \<Rightarrow> int option \<times> string" where
  \<comment> \<open>the optional group \<open>[eE][-+]?[0-9]+\<close>\<close>
  "scan_exponent s =
     (case s of
        [] \<Rightarrow> (None, s)
      | e # r \<Rightarrow>
          if e = CHR ''e'' \<or> e = CHR ''E'' then
            (let (sgn, r') =
                   (case r of
                      [] \<Rightarrow> (1, r)
                    | x # r'' \<Rightarrow>
                        if x = CHR ''+'' then (1, r'')
                        else if x = CHR ''-'' then (- 1, r'')
                        else (1, r))
             in if takeWhile digit r' \<noteq> []
                then (Some (sgn * digits_val (takeWhile digit r')), dropWhile digit r')
                else (None, s))
          else (None, s))"

definition scan_fraction :: "string \<Rightarrow> string option \<times> string" where
  \<comment> \<open>the optional group \<open>\.[0-9]+\<close>\<close>
  "scan_fraction s =
     (case s of
        [] \<Rightarrow> (None, s)
      | p # r \<Rightarrow>
          if p = CHR ''.'' \<and> takeWhile digit r \<noteq> []
          then (Some (takeWhile digit r), dropWhile digit r)
          else (None, s))"

definition scan_number :: "string \<Rightarrow> (json \<times> string) option" where
  \<comment> \<open>\<open>(-?(?:0|[1-9][0-9]*))(\.[0-9]+)?([eE][-+]?[0-9]+)?\<close> at the start of the
      text: an \<open>int\<close> when there is neither fraction nor exponent, else a \<open>float\<close>\<close>
  "scan_number s =
     (let (sgn, s1) =
            (case s of
               [] \<Rightarrow> (1, s)
             | m # r \<Rightarrow> if m = CHR ''-'' then (- 1, r) else (1, s))
      in case s1 of
           [] \<Rightarrow> None
         | d # r \<Rightarrow>
             if \<not> digit d then None
             else
               (let (ip, s2) =
                      (if d = CHR ''0'' then ([d], r)
                       else (d # takeWhile digit r, dropWhile digit r));
                    (fp, s3) = scan_fraction s2;
                    (ep, s4) = scan_exponent s3
                in case (fp, ep) of
                     (None, None) \<Rightarrow> Some (JInt (sgn * digits_val ip), s4)
                   | _ \<Rightarrow>
                       (let fd = (case fp of None \<Rightarrow> [] | Some ds \<Rightarrow> ds);
                            ex = (case ep of None \<Rightarrow> 0 | Some x \<Rightarrow> x)
                        in Some (JFloat (FDec (sgn * digits_val (ip @ fd))
                                   (ex - int (length fd))), s4))))"

definition scan_atom :: "string \<Rightarrow> (json \<times> string) option" where
  \<comment> \<open>the scanner's tests for a value that is no string, object or array, in its
      order: the three names, a number, the three float names\<close>
  "scan_atom s =
     (if prefix ''null'' s then Some (JNull, drop 4 s)
      else if prefix ''true'' s then Some (JBool True, drop 4 s)
      else if prefix ''false'' s then Some (JBool False, drop 5 s)
      else
        (case scan_number s of
           Some r \<Rightarrow> Some r
         | None \<Rightarrow>
             if prefix ''NaN'' s then Some (JFloat FNaN, drop 3 s)
             else if prefix ''Infinity'' s then Some (JFloat FInf, drop 8 s)
             else if prefix ''-Infinity'' s then Some (JFloat FNegInf, drop 9 s)
             else None))"

fun dict_set :: "(string \<times> json) list \<Rightarrow> string \<Rightarrow> json \<Rightarrow> (string \<times> json) list" where
  \<comment> \<open>\<open>d[key] = value\<close>\<close>
  "dict_set [] k v = [(k, v)]"
| "dict_set (p # ps) k v = (if fst p = k then (k, v) # ps else p # dict_set ps k v)"

fun parse_value :: "nat \<Rightarrow> string \<Rightarrow> (json \<times> string) option"
  and parse_members :: "nat \<Rightarrow> (string \<times> json) list \<Rightarrow> string \<Rightarrow> (json \<times> string) option"
  and parse_items :: "nat \<Rightarrow> json list \<Rightarrow> string \<Rightarrow> (json \<times> string) option"
where
  \<comment> \<open>the first argument bounds the depth of the recursion; \<open>json_loads\<close> starts it
      above twice the length of the text, from where on the result no longer depends
      on it (\<open>parse_value_enough_fuel\<close>)\<close>
  "parse_value 0 s = None"
| "parse_value (Suc n) s =
     (case s of
        [] \<Rightarrow> None
      | c # cs \<Rightarrow>
          if c = CHR 0x22 then
            (case scanstring cs of None \<Rightarrow> None | Some (t, r) \<Rightarrow> Some (JString t, r))
          else if c = CHR ''{'' then
            (case skip_ws cs of
               [] \<Rightarrow> None
             | x # r \<Rightarrow>
                 if x = CHR ''}'' then Some (JObject [], r)
                 else if x = CHR 0x22 then parse_members n [] r
                 else None)
          else if c = CHR ''['' then
            (case skip_ws cs of
               [] \<Rightarrow> None
             | x # r \<Rightarrow>
                 if x = CHR '']'' then Some (JArray [], r)
                 else parse_items n [] (x # r))
          else scan_atom s)"
| "parse_members 0 d s = None"
| "parse_members (Suc n) d s =
     \<comment> \<open>\<open>s\<close> starts right after the opening quote of a key\<close>
     (case scanstring s of
        None \<Rightarrow> None
      | Some (key, r1) \<Rightarrow>
          (case skip_ws r1 of
             [] \<Rightarrow> None
           | x # r2 \<Rightarrow>
               if x \<noteq> CHR '':'' then None
               else
                 (case parse_value n (skip_ws r2) of
                    None \<Rightarrow> None
                  | Some (v, r3) \<Rightarrow>
                      (case skip_ws r3 of
                         [] \<Rightarrow> None
                       | y # r4 \<Rightarrow>
                           if y = CHR ''}'' then Some (JObject (dict_set d key v), r4)
                           else if y = CHR '','' then
                             (case skip_ws r4 of
                                [] \<Rightarrow> None
                              | q # r5 \<Rightarrow>
                                  if q = CHR 0x22 then parse_members n (dict_set d key v) r5
                                  else None)
                           else None))))"
| "parse_items 0 xs s = None"
| "parse_items (Suc n) xs s =
     (case parse_value n s of
        None \<Rightarrow> None
      | Some (v, r1) \<Rightarrow>
          (case skip_ws r1 of
             [] \<Rightarrow> None
           | y # r2 \<Rightarrow>
               if y = CHR '']'' then Some (JArray (xs @ [v]), r2)
               else if y = CHR '','' then parse_items n (xs @ [v]) (skip_ws r2)
               else None))"

definition json_loads :: "string \<Rightarrow> json option" where
  \<comment> \<open>\<open>json.loads(s)\<close>; \<open>None\<close> when it raises\<close>
  "json_loads s =
     (case parse_value (Suc (2 * length s)) (skip_ws s) of
        None \<Rightarrow> None
      | Some (v, r) \<Rightarrow> if skip_ws r = [] then Some v else None)"

section \<open>The collaborators and the workflow\<close>

text \<open>
  The mailbox, the generative service and the mail submission are outside the program.
  They are a record that the functions read and return updated. What the program can
  observe of a stored message is its \<open>From\<close> and \<open>Subject\<close> headers (absent or a
  text) and its content: one payload, or the parts that \<open>walk()\<close> yields, each with its
  content type. A payload is \<open>None\<close> when \<open>get_payload(decode=True).decode()\<close> raises.
  The prompt is static text around the three fields of the message, so the service is a
  function of these fields; it raises, answers without text, or answers with a text.
\<close>

datatype content = Single "string option" | Multipart "(string \<times> string option) list"

record raw_email =
  hdr_from :: "string option"
  hdr_subject :: "string option"
  msg_content :: content

record email_data =
  from_email :: string
  subject :: string
  body :: string

datatype ai_response = Raises | NoText | Text string

record world =
  EMAIL_ADDRESS :: "string option"
  EMAIL_PASSWORD :: "string option"
  gemini_client :: "(email_data \<Rightarrow> ai_response) option"
  imap_up :: bool
  unseen :: "nat list"
  inbox :: "(nat \<times> raw_email) list"
  smtp_accepts :: "string \<Rightarrow> string \<Rightarrow> string \<Rightarrow> bool"
  outbox :: "(string \<times> string \<times> string) list"

definition credentials_missing :: "world \<Rightarrow> bool" where
  \<comment> \<open>\<open>not EMAIL_ADDRESS or not EMAIL_PASSWORD\<close>\<close>
  "credentials_missing w =
     ((case EMAIL_ADDRESS w of None \<Rightarrow> True | Some a \<Rightarrow> a = []) \<or>
      (case EMAIL_PASSWORD w of None \<Rightarrow> True | Some p \<Rightarrow> p = []))"

definition send_smtp_email :: "world \<Rightarrow> string \<Rightarrow> string \<Rightarrow> string \<Rightarrow> bool \<times> world" where
  \<comment> \<open>\<open>_send_smtp_email\<close>, lines 115-136\<close>
  "send_smtp_email w to_email subj content =
     (if credentials_missing w then (False, w)
      else if smtp_accepts w to_email subj content
      then (True, w\<lparr>outbox := outbox w @ [(to_email, subj, content)]\<rparr>)
      else (False, w))"

definition extract_body :: "content \<Rightarrow> string option" where
  \<comment> \<open>lines 168-175; \<open>None\<close> when decoding the payload raises\<close>
  "extract_body c =
     (case c of
        Multipart parts \<Rightarrow>
          (case find (\<lambda>part. fst part = ''text/plain'') parts of
             None \<Rightarrow> Some []
           | Some part \<Rightarrow> snd part)
      | Single payload \<Rightarrow> payload)"

definition extract_sender :: "string \<Rightarrow> string" where
  \<comment> \<open>lines 165-166\<close>
  "extract_sender from_header =
     (case search_tag from_header of Some g \<Rightarrow> g | None \<Rightarrow> from_header)"

definition fetch_latest_unread_email ::
  "world \<Rightarrow> (string \<times> string \<times> string) option \<times> world" where
  \<comment> \<open>\<open>_fetch_latest_unread_email\<close>, lines 139-181; the result \<open>None\<close> is the triple
      \<open>(None, None, None)\<close>. Every exception after the message is flagged leaves it
      flagged.\<close>
  "fetch_latest_unread_email w =
     (if credentials_missing w then (None, w)
      else if \<not> imap_up w then (None, w)
      else
        (case unseen w of
           [] \<Rightarrow> (None, w)
         | i # is \<Rightarrow>
             (let latest_id = last (i # is);
                  w' = w\<lparr>unseen := butlast (i # is)\<rparr>
              in case map_of (inbox w) latest_id of
                   None \<Rightarrow> (None, w')
                 | Some email_message \<Rightarrow>
                     (let from_header =
                            (case hdr_from email_message of Some h \<Rightarrow> h | None \<Rightarrow> []);
                          subj =
                            (case hdr_subject email_message of
                               Some h \<Rightarrow> h
                             | None \<Rightarrow> ''No Subject'');
                          sender = extract_sender from_header
                      in case extract_body (msg_content email_message) of
                           None \<Rightarrow> (None, w')
                         | Some b \<Rightarrow> (Some (sender, subj, b), w')))))"

definition search_braces :: "string \<Rightarrow> string option" where
  \<comment> \<open>\<open>re.search(r"\{.*\}", raw, re.DOTALL)\<close>: the leftmost match starts at the first
      \<open>{\<close>, and the greedy \<open>.*\<close> runs to the last \<open>}\<close> after it\<close>
  "search_braces raw =
     (case dropWhile (\<lambda>c. c \<noteq> CHR ''{'') raw of
        [] \<Rightarrow> None
      | c # after \<Rightarrow>
          (case dropWhile (\<lambda>c. c \<noteq> CHR ''}'') (rev after) of
             [] \<Rightarrow> None
           | x # r \<Rightarrow> Some (c # rev (x # r))))"

definition parse_response :: "string \<Rightarrow> json option" where
  \<comment> \<open>lines 211-215 and the handler of line 217, from \<open>response.text\<close>\<close>
  "parse_response response_text =
     (let raw = strip response_text
      in case search_braces raw of
           None \<Rightarrow> None
         | Some m \<Rightarrow> json_loads m)"

definition run_ai_agent :: "world \<Rightarrow> email_data \<Rightarrow> json option" where
  \<comment> \<open>\<open>_run_ai_agent\<close>, lines 184-220\<close>
  "run_ai_agent w ed =
     (case gemini_client w of
        None \<Rightarrow> None
      | Some generate_content \<Rightarrow>
          (case generate_content ed of
             Raises \<Rightarrow> None
           | NoText \<Rightarrow> None
           | Text t \<Rightarrow> parse_response t))"

datatype event = Classify email_data | SendAttempt string string string

record run =
  raised :: "py_error option"
  events :: "event list"
  final :: world

definition main_agent_workflow :: "world \<Rightarrow> run" where
  \<comment> \<open>lines 223-259. \<open>events\<close> lists the calls of \<open>_run_ai_agent\<close> and of
      \<open>_send_smtp_email\<close> in order; an exception of lines 242-252 ends the run.\<close>
  "main_agent_workflow w =
     (case fetch_latest_unread_email w of
        (None, w1) \<Rightarrow> \<lparr>raised = None, events = [], final = w1\<rparr>
      | (Some (sender, subj, b), w1) \<Rightarrow>
          if sender = [] then \<lparr>raised = None, events = [], final = w1\<rparr>
          else
            (let ed = \<lparr>from_email = sender, subject = subj, body = b\<rparr>;
                 ai_output = run_ai_agent w1 ed
             in case select_reply ai_output of
                  Inl e \<Rightarrow> \<lparr>raised = Some e, events = [Classify ed], final = w1\<rparr>
                | Inr reply \<Rightarrow>
                    (let (ok, w2) = send_smtp_email w1 sender (''Re: '' @ subj) reply
                     in \<lparr>raised = None,
                         events = [Classify ed, SendAttempt sender (''Re: '' @ subj) reply],
                         final = w2\<rparr>)))"

section \<open>Notions used to state the properties\<close>

fun has_tag :: "string \<Rightarrow> bool" where
  \<comment> \<open>some position of the text matches \<open><[^>]+>\<close>\<close>
  "has_tag [] = False"
| "has_tag (c # cs) = ((c = CHR ''<'' \<and> match_tag cs \<noteq> None) \<or> has_tag cs)"

definition chosen_field :: "(string \<times> json) list \<Rightarrow> string" where
  \<comment> \<open>the key whose value lines 245-250 bind to \<open>reply\<close>\<close>
  "chosen_field d =
     (let is_technical = dict_get d ''is_technical'' (JBool False);
          request_meeting = dict_get d ''request_meeting'' (JBool False)
      in if truthy is_technical \<and> truthy request_meeting then ''meeting_suggestion_draft''
         else if truthy is_technical then ''simple_reply_draft''
         else ''non_technical_reply_draft'')"

definition classification ::
  "bool \<Rightarrow> string \<Rightarrow> string \<Rightarrow> bool \<Rightarrow> string \<Rightarrow> json" where
  \<comment> \<open>a result with the five fields of \<open>RESPONSE_SCHEMA_JSON\<close>, in its order\<close>
  "classification t s n m g =
     JObject [(''is_technical'', JBool t), (''simple_reply_draft'', JString s),
              (''non_technical_reply_draft'', JString n), (''request_meeting'', JBool m),
              (''meeting_suggestion_draft'', JString g)]"

definition required_fields :: "string list" where
  \<comment> \<open>\<open>RESPONSE_SCHEMA_JSON["required"]\<close>, lines 101-107\<close>
  "required_fields =
     [''is_technical'', ''simple_reply_draft'', ''non_technical_reply_draft'',
      ''request_meeting'', ''meeting_suggestion_draft'']"

definition has_required_fields :: "json \<Rightarrow> bool" where
  \<comment> \<open>a dict that has every required key\<close>
  "has_required_fields v =
     (case v of
        JObject d \<Rightarrow> list_all (\<lambda>k. map_of d k \<noteq> None) required_fields
      | _ \<Rightarrow> False)"

text \<open>
  The parsing contract in the words of the specification: the first well-formed JSON
  object substring of the text, decoded. It is the value that the decoder reads at the
  leftmost \<open>{\<close> where it reads one, whatever comes before and after.
\<close>

fun first_json_object :: "string \<Rightarrow> json option" where
  "first_json_object [] = None"
| "first_json_object (c # cs) =
     (case (if c = CHR ''{'' then parse_value (Suc (2 * length (c # cs))) (c # cs) else None) of
        Some (v, rest) \<Rightarrow> Some v
      | None \<Rightarrow> first_json_object cs)"

subsection \<open>Example inputs\<close>

definition example_mail :: raw_email where
  "example_mail = \<lparr>hdr_from = Some ''Bob <bob@example.org>'', hdr_subject = Some ''ARIMA or LSTM?'',
     msg_content = Single (Some ''Which model fits weekly sales?'')\<rparr>"

definition example_world :: "(email_data \<Rightarrow> ai_response) option \<Rightarrow> raw_email \<Rightarrow> world" where
  "example_world client m =
     \<lparr>EMAIL_ADDRESS = Some ''me@example.org'', EMAIL_PASSWORD = Some ''secret'',
      gemini_client = client, imap_up = True, unseen = [4, 9], inbox = [(4, m), (9, m)],
      smtp_accepts = (\<lambda>to_email subj content. True), outbox = []\<rparr>"

definition answering :: "string \<Rightarrow> world" where
  "answering t = example_world (Some (\<lambda>ed. Text t)) example_mail"

definition example_data :: email_data where
  "example_data = \<lparr>from_email = ''bob@example.org'', subject = ''ARIMA or LSTM?'',
     body = ''Which model fits weekly sales?''\<rparr>"

definition mail_without_from :: raw_email where
  "mail_without_from = \<lparr>hdr_from = None, hdr_subject = Some ''ARIMA or LSTM?'',
     msg_content = Single (Some ''Which model fits weekly sales?'')\<rparr>"

definition mail_with_empty_from :: raw_email where
  "mail_with_empty_from = \<lparr>hdr_from = Some [], hdr_subject = None,
     msg_content = Multipart [(''multipart/alternative'', None), (''text/html'', Some ''<p>Hi</p>'')]\<rparr>"

definition technical_answer :: string where
  \<open>technical_answer =
     ''{"is_technical": true, "request_meeting": false, "simple_reply_draft": "Hi Bob, use ARIMA."}''\<close>

definition tagged_answer :: string where
  \<open>tagged_answer =
     ''{"is_technical": true, "request_meeting": true, "meeting_suggestion_draft": "<div>Let us <b>meet</b></div>"}''\<close>

section \<open>Auxiliary facts\<close>

subsection \<open>The text functions\<close>

lemma match_tag_None_iff:
  "match_tag cs = None \<longleftrightarrow> (cs = [] \<or> hd cs = CHR ''>'' \<or> CHR ''>'' \<notin> set cs)"
proof (cases cs)
  case Nil
  then show ?thesis by (simp add: match_tag_def)
next
  case (Cons a as)
  show ?thesis
  proof (cases "a = CHR ''>''")
    case True
    with Cons show ?thesis by (simp add: match_tag_def)
  next
    case False
    have "dropWhile (\<lambda>c. c \<noteq> CHR ''>'') as = [] \<longleftrightarrow> CHR ''>'' \<notin> set as"
      by (auto simp: dropWhile_eq_Nil_conv)
    with False Cons show ?thesis by (simp add: match_tag_def Let_def)
  qed
qed

lemma match_tag_Some_iff:
  "match_tag cs = Some (mid, rest) \<longleftrightarrow>
     (cs = mid @ CHR ''>'' # rest \<and> mid \<noteq> [] \<and> CHR ''>'' \<notin> set mid)"
proof
  assume m: "match_tag cs = Some (mid, rest)"
  let ?P = "\<lambda>c. c \<noteq> CHR ''>''"
  from m have mid: "mid = takeWhile ?P cs" and ne: "mid \<noteq> []"
    and dne: "dropWhile ?P cs \<noteq> []" and rest: "rest = tl (dropWhile ?P cs)"
    by (auto simp: match_tag_def Let_def split: if_splits)
  from dne have "hd (dropWhile ?P cs) = CHR ''>''"
    using hd_dropWhile[of ?P cs] by simp
  with dne rest have "dropWhile ?P cs = CHR ''>'' # rest"
    by (cases "dropWhile ?P cs") auto
  then have "cs = mid @ CHR ''>'' # rest"
    using takeWhile_dropWhile_id[of ?P cs] mid by simp
  moreover have "CHR ''>'' \<notin> set mid"
    using mid set_takeWhileD by fastforce
  ultimately show "cs = mid @ CHR ''>'' # rest \<and> mid \<noteq> [] \<and> CHR ''>'' \<notin> set mid"
    using ne by simp
next
  assume a: "cs = mid @ CHR ''>'' # rest \<and> mid \<noteq> [] \<and> CHR ''>'' \<notin> set mid"
  let ?P = "\<lambda>c. c \<noteq> CHR ''>''"
  from a have all: "\<forall>x\<in>set mid. ?P x" by auto
  have "takeWhile ?P cs = mid" using a all by (simp add: takeWhile_tail)
  moreover have "dropWhile ?P cs = CHR ''>'' # rest"
    using a all by (simp add: dropWhile_append3)
  ultimately show "match_tag cs = Some (mid, rest)"
    using a by (simp add: match_tag_def Let_def)
qed

lemma set_sub_tags: "set (sub_tags s) \<subseteq> set s"
proof (induction s rule: sub_tags.induct)
  case 1
  then show ?case by simp
next
  case (2 c cs)
  show ?case
  proof (cases "c = CHR ''<''")
    case False
    with 2 show ?thesis by auto
  next
    case True
    show ?thesis
    proof (cases "match_tag cs")
      case None
      with True 2 show ?thesis by auto
    next
      case (Some p)
      obtain mid rest where p: "p = (mid, rest)" by (cases p)
      with Some have "cs = mid @ CHR ''>'' # rest" by (simp add: match_tag_Some_iff)
      moreover have "set (sub_tags rest) \<subseteq> set rest"
        using "2.IH"(2)[OF True Some p[symmetric]] .
      ultimately show ?thesis using True Some p by auto
    qed
  qed
qed

lemma match_tag_sub_tags:
  assumes "match_tag cs = None"
  shows "match_tag (sub_tags cs) = None"
proof -
  from assms consider "cs = []" | as where "cs = CHR ''>'' # as" | "CHR ''>'' \<notin> set cs"
    unfolding match_tag_None_iff by (cases cs) auto
  then show ?thesis
  proof cases
    case 1
    then show ?thesis by (simp add: match_tag_None_iff)
  next
    case 2
    then show ?thesis by (simp add: match_tag_None_iff)
  next
    case 3
    with set_sub_tags[of cs] have "CHR ''>'' \<notin> set (sub_tags cs)" by auto
    then show ?thesis by (simp add: match_tag_None_iff)
  qed
qed

lemma no_tag_sub_tags: "\<not> has_tag (sub_tags s)"
proof (induction s rule: sub_tags.induct)
  case 1
  then show ?case by simp
next
  case (2 c cs)
  show ?case
  proof (cases "c = CHR ''<''")
    case False
    with 2 show ?thesis by simp
  next
    case True
    show ?thesis
    proof (cases "match_tag cs")
      case None
      with True 2 match_tag_sub_tags[OF None] show ?thesis by simp
    next
      case (Some p)
      obtain mid rest where p: "p = (mid, rest)" by (cases p)
      from "2.IH"(2)[OF True Some p[symmetric]] True Some p show ?thesis by simp
    qed
  qed
qed

lemma sub_tags_id: "\<not> has_tag s \<Longrightarrow> sub_tags s = s"
  by (induction s) (auto split: option.splits)

lemma has_tag_iff:
  "has_tag s \<longleftrightarrow>
     (\<exists>pre mid post. s = pre @ CHR ''<'' # mid @ CHR ''>'' # post \<and> mid \<noteq> [] \<and> CHR ''>'' \<notin> set mid)"
proof (induction s)
  case Nil
  then show ?case by simp
next
  case (Cons c cs)
  show ?case
  proof
    assume "has_tag (c # cs)"
    then consider "c = CHR ''<''" "match_tag cs \<noteq> None" | "has_tag cs" by auto
    then show "\<exists>pre mid post. c # cs = pre @ CHR ''<'' # mid @ CHR ''>'' # post \<and> mid \<noteq> [] \<and> CHR ''>'' \<notin> set mid"
    proof cases
      case 1
      then obtain mid rest where "match_tag cs = Some (mid, rest)" by auto
      then have "cs = mid @ CHR ''>'' # rest \<and> mid \<noteq> [] \<and> CHR ''>'' \<notin> set mid"
        by (simp add: match_tag_Some_iff)
      with 1 have "c # cs = [] @ CHR ''<'' # mid @ CHR ''>'' # rest \<and> mid \<noteq> [] \<and> CHR ''>'' \<notin> set mid"
        by simp
      then show ?thesis by blast
    next
      case 2
      with Cons obtain pre mid post where
        "cs = pre @ CHR ''<'' # mid @ CHR ''>'' # post \<and> mid \<noteq> [] \<and> CHR ''>'' \<notin> set mid"
        by blast
      then have "c # cs = (c # pre) @ CHR ''<'' # mid @ CHR ''>'' # post \<and> mid \<noteq> [] \<and> CHR ''>'' \<notin> set mid"
        by simp
      then show ?thesis by blast
    qed
  next
    assume "\<exists>pre mid post. c # cs = pre @ CHR ''<'' # mid @ CHR ''>'' # post \<and> mid \<noteq> [] \<and> CHR ''>'' \<notin> set mid"
    then obtain pre mid post where
      d: "c # cs = pre @ CHR ''<'' # mid @ CHR ''>'' # post" and m: "mid \<noteq> []" "CHR ''>'' \<notin> set mid"
      by blast
    show "has_tag (c # cs)"
    proof (cases pre)
      case Nil
      with d have "c = CHR ''<''" and "cs = mid @ CHR ''>'' # post" by auto
      with m have "match_tag cs = Some (mid, post)" by (simp add: match_tag_Some_iff)
      with \<open>c = CHR ''<''\<close> show ?thesis by simp
    next
      case (Cons p ps)
      with d have "cs = ps @ CHR ''<'' # mid @ CHR ''>'' # post" by simp
      with m Cons.IH have "has_tag cs" by blast
      then show ?thesis by simp
    qed
  qed
qed

lemma has_tag_infix:
  assumes "has_tag t"
  shows "has_tag (a @ t @ b)"
proof -
  from assms obtain pre mid post where
    "t = pre @ CHR ''<'' # mid @ CHR ''>'' # post" "mid \<noteq> []" "CHR ''>'' \<notin> set mid"
    unfolding has_tag_iff by blast
  then have "a @ t @ b = (a @ pre) @ CHR ''<'' # mid @ CHR ''>'' # (post @ b) \<and> mid \<noteq> [] \<and> CHR ''>'' \<notin> set mid"
    by simp
  then show ?thesis unfolding has_tag_iff by blast
qed

lemma strip_infix: "\<exists>a b. s = a @ strip s @ b"
proof -
  let ?t = "dropWhile isspace s"
  have "s = takeWhile isspace s @ ?t" by simp
  moreover have "rev ?t = takeWhile isspace (rev ?t) @ dropWhile isspace (rev ?t)" by simp
  then have "?t = rev (dropWhile isspace (rev ?t)) @ rev (takeWhile isspace (rev ?t))"
    by (metis rev_append rev_rev_ident)
  ultimately have "s = takeWhile isspace s @ strip s @ rev (takeWhile isspace (rev ?t))"
    by (simp add: strip_def)
  then show ?thesis by blast
qed

lemma no_tag_strip: "\<not> has_tag s \<Longrightarrow> \<not> has_tag (strip s)"
  using strip_infix[of s] has_tag_infix by metis

lemma strip_idem: "strip (strip s) = strip s"
proof -
  define t where "t = dropWhile isspace s"
  define u where "u = dropWhile isspace (rev t)"
  have u: "strip s = rev u" by (simp add: strip_def t_def u_def)
  have "dropWhile isspace (rev u) = rev u"
  proof (cases "u = []")
    case True
    then show ?thesis by simp
  next
    case False
    have "rev t = takeWhile isspace (rev t) @ u" by (simp add: u_def)
    then have t: "t = rev u @ rev (takeWhile isspace (rev t))"
      by (metis rev_append rev_rev_ident)
    from False have "t \<noteq> []" by (auto simp: u_def)
    then have "\<not> isspace (hd t)" unfolding t_def by (rule hd_dropWhile)
    moreover from t False have "hd t = hd (rev u)" by (metis hd_append2 rev_is_Nil_conv)
    ultimately have "\<not> isspace (hd (rev u))" by simp
    with False show ?thesis by (cases "rev u") auto
  qed
  moreover have "dropWhile isspace u = u" by (simp add: u_def dropWhile_idem)
  ultimately have "strip (rev u) = rev u"
    by (simp add: strip_def)
  then show ?thesis using u by simp
qed

lemma no_tag_sanitize: "\<not> has_tag (sanitize s)"
  by (simp add: sanitize_def no_tag_strip no_tag_sub_tags)


lemma lower_Hello:
  "lower (''Hello,\<newline>\<newline>'' @ r) = ''hello,\<newline>\<newline>'' @ lower r"
proof -
  have "map lower_char ''Hello,\<newline>\<newline>'' = ''hello,\<newline>\<newline>''"
    by code_simp
  then show ?thesis
    unfolding lower_def map_append by simp
qed

lemma has_tag_Hello: "has_tag (''Hello,\<newline>\<newline>'' @ r) = has_tag r"
  by simp

lemma sanitize_SAFE_DEFAULT_REPLY: "sanitize SAFE_DEFAULT_REPLY = SAFE_DEFAULT_REPLY"
  by code_simp

lemma normalize_greeting_SAFE_DEFAULT_REPLY:
  "normalize_greeting SAFE_DEFAULT_REPLY = SAFE_DEFAULT_REPLY"
  by code_simp

lemma normalize_greeting_cases:
  "normalize_greeting r = r \<and> startswith (lower r) greeting_tokens \<or>
   normalize_greeting r = ''Hello,\<newline>\<newline>'' @ r \<and> \<not> startswith (lower r) greeting_tokens"
  by (simp add: normalize_greeting_def)

lemma select_reply_cases:
  assumes "select_reply ai_output = Inr reply"
  obtains s where "reply = normalize_greeting (sanitize s)"
  using assms
  by (auto simp: select_reply_def finish_reply_def split: sum.splits json.splits)

subsection \<open>Selection, extraction and fetching\<close>

lemma choose_draft_dict:
  "choose_draft (Some (JObject d)) =
     Inr (dict_get d (chosen_field d) (JString SAFE_DEFAULT_REPLY))"
  by (cases d) (simp_all add: choose_draft_def chosen_field_def dict_get_def Let_def)

lemma search_braces_Some_iff:
  "search_braces raw = Some m \<longleftrightarrow>
     (\<exists>pre mid post. raw = pre @ CHR ''{'' # mid @ CHR ''}'' # post \<and>
        CHR ''{'' \<notin> set pre \<and> CHR ''}'' \<notin> set post \<and> m = CHR ''{'' # mid @ ''}'')"
proof
  assume a: "search_braces raw = Some m"
  let ?P = "\<lambda>c. c \<noteq> CHR ''{''" and ?Q = "\<lambda>c. c \<noteq> CHR ''}''"
  from a obtain c after where d1: "dropWhile ?P raw = c # after"
    by (auto simp: search_braces_def split: list.splits)
  with a obtain x r where d2: "dropWhile ?Q (rev after) = x # r" and m: "m = c # rev (x # r)"
    by (auto simp: search_braces_def split: list.splits)
  have c: "c = CHR ''{''"
    using hd_dropWhile [of ?P raw] d1 by auto
  have x: "x = CHR ''}''"
    using hd_dropWhile [of ?Q "rev after"] d2 by auto
  define pre where "pre = takeWhile ?P raw"
  define tsop where "tsop = takeWhile ?Q (rev after)"
  have raw: "raw = pre @ CHR ''{'' # after"
    using takeWhile_dropWhile_id [of ?P raw] d1 c by (simp add: pre_def)
  have "rev after = tsop @ CHR ''}'' # r"
    using takeWhile_dropWhile_id [of ?Q "rev after"] d2 x by (simp add: tsop_def)
  then have "after = rev (tsop @ CHR ''}'' # r)"
    by (metis rev_rev_ident)
  then have after: "after = rev r @ CHR ''}'' # rev tsop"
    by simp
  have "CHR ''{'' \<notin> set pre"
    unfolding pre_def using set_takeWhileD by fastforce
  moreover have "CHR ''}'' \<notin> set (rev tsop)"
    unfolding tsop_def using set_takeWhileD by fastforce
  moreover have "m = CHR ''{'' # rev r @ ''}''"
    using m c x by simp
  ultimately show "\<exists>pre mid post. raw = pre @ CHR ''{'' # mid @ CHR ''}'' # post \<and>
        CHR ''{'' \<notin> set pre \<and> CHR ''}'' \<notin> set post \<and> m = CHR ''{'' # mid @ ''}''"
    using raw after by blast
next
  assume "\<exists>pre mid post. raw = pre @ CHR ''{'' # mid @ CHR ''}'' # post \<and>
        CHR ''{'' \<notin> set pre \<and> CHR ''}'' \<notin> set post \<and> m = CHR ''{'' # mid @ ''}''"
  then obtain pre mid post where raw: "raw = pre @ CHR ''{'' # mid @ CHR ''}'' # post"
    and pre: "CHR ''{'' \<notin> set pre" and post: "CHR ''}'' \<notin> set post"
    and m: "m = CHR ''{'' # mid @ ''}''"
    by blast
  from pre have "\<forall>c\<in>set pre. c \<noteq> CHR ''{''" by auto
  then have d1: "dropWhile (\<lambda>c. c \<noteq> CHR ''{'') raw = CHR ''{'' # mid @ CHR ''}'' # post"
    unfolding raw by (simp add: dropWhile_append3)
  from post have "\<forall>c\<in>set (rev post). c \<noteq> CHR ''}''" by auto
  then have d2: "dropWhile (\<lambda>c. c \<noteq> CHR ''}'') (rev post @ CHR ''}'' # rev mid) = CHR ''}'' # rev mid"
    by (simp add: dropWhile_append3)
  show "search_braces raw = Some m"
    unfolding search_braces_def d1 using d2 m by simp
qed

lemma search_braces_None_iff:
  "search_braces raw = None \<longleftrightarrow>
     \<not> (\<exists>pre mid post. raw = pre @ CHR ''{'' # mid @ CHR ''}'' # post)"
proof
  assume n: "search_braces raw = None"
  show "\<not> (\<exists>pre mid post. raw = pre @ CHR ''{'' # mid @ CHR ''}'' # post)"
  proof
    assume "\<exists>pre mid post. raw = pre @ CHR ''{'' # mid @ CHR ''}'' # post"
    then obtain pre mid post where raw: "raw = pre @ CHR ''{'' # mid @ CHR ''}'' # post"
      by blast
    let ?P = "\<lambda>c. c \<noteq> CHR ''{''" and ?Q = "\<lambda>c. c \<noteq> CHR ''}''"
    have "CHR ''{'' \<in> set raw" using raw by simp
    then have "dropWhile ?P raw \<noteq> []" by (auto simp: dropWhile_eq_Nil_conv)
    then obtain c after where d1: "dropWhile ?P raw = c # after"
      by (cases "dropWhile ?P raw") auto
    have "length (takeWhile ?P raw) \<le> length pre"
    proof (rule ccontr)
      assume "\<not> length (takeWhile ?P raw) \<le> length pre"
      then have l: "length pre < length (takeWhile ?P raw)" by simp
      then have "takeWhile ?P raw ! length pre = raw ! length pre"
        by (rule takeWhile_nth)
      moreover have "raw ! length pre = CHR ''{''" using raw by simp
      moreover have "takeWhile ?P raw ! length pre \<in> set (takeWhile ?P raw)"
        using l by simp
      ultimately show False using set_takeWhileD by fastforce
    qed
    then obtain k where k: "length pre = length (takeWhile ?P raw) + k"
      using le_Suc_ex by blast
    have "raw = takeWhile ?P raw @ c # after"
      using takeWhile_dropWhile_id [of ?P raw] d1 by simp
    then have "drop (length (takeWhile ?P raw)) raw = c # after"
      by (metis append_eq_conv_conj)
    moreover have "drop (length pre) raw = CHR ''{'' # mid @ CHR ''}'' # post"
      using raw by simp
    ultimately have "drop k (c # after) = CHR ''{'' # mid @ CHR ''}'' # post"
      using k by (metis add.commute drop_drop)
    then have "CHR ''}'' \<in> set (drop k (c # after))" by simp
    then have "CHR ''}'' \<in> set (c # after)" by (meson in_set_dropD)
    moreover have "c = CHR ''{''" using hd_dropWhile [of ?P raw] d1 by auto
    ultimately have "CHR ''}'' \<in> set (rev after)" by simp
    then have "dropWhile ?Q (rev after) \<noteq> []" by (auto simp: dropWhile_eq_Nil_conv)
    then have "search_braces raw \<noteq> None"
      unfolding search_braces_def d1 by (cases "dropWhile ?Q (rev after)") auto
    with n show False by simp
  qed
next
  assume a: "\<not> (\<exists>pre mid post. raw = pre @ CHR ''{'' # mid @ CHR ''}'' # post)"
  show "search_braces raw = None"
  proof (cases "search_braces raw")
    case None
    then show ?thesis .
  next
    case (Some m)
    then have "\<exists>pre mid post. raw = pre @ CHR ''{'' # mid @ CHR ''}'' # post"
      unfolding search_braces_Some_iff by blast
    with a show ?thesis by simp
  qed
qed

lemma outbox_fetch: "outbox (snd (fetch_latest_unread_email w)) = outbox w"
  by (simp add: fetch_latest_unread_email_def Let_def split: list.splits option.splits)

lemma fetch_Some:
  assumes "fetch_latest_unread_email w = (Some (sender, subj, b), w1)"
  shows "unseen w \<noteq> [] \<and> w1 = w\<lparr>unseen := butlast (unseen w)\<rparr> \<and>
         (\<exists>m. map_of (inbox w) (last (unseen w)) = Some m \<and>
              sender = extract_sender (case hdr_from m of Some h \<Rightarrow> h | None \<Rightarrow> []))"
  using assms
  by (auto simp: fetch_latest_unread_email_def Let_def split: list.splits option.splits if_splits)

lemma search_tag_nonempty: "search_tag s = Some g \<Longrightarrow> g \<noteq> []"
  by (induction s) (auto simp: match_tag_Some_iff split: if_splits option.splits)

lemma extract_sender_empty_iff: "extract_sender h = [] \<longleftrightarrow> h = []"
  by (auto simp: extract_sender_def split: option.splits dest: search_tag_nonempty)

lemma sent_reply_selected:
  assumes "SendAttempt to_email subj reply \<in> set (events (main_agent_workflow w))"
  shows "\<exists>ai_output. select_reply ai_output = Inr reply"
  using assms
  by (auto simp: main_agent_workflow_def Let_def
      split: prod.splits option.splits if_splits sum.splits)

subsection \<open>The decoder\<close>

text \<open>
  Every scanning function returns a proper suffix of its text, and once the bound is
  above twice the length of the text the result of the parser is the same for every
  larger bound: the parser never stops for lack of it.
\<close>

lemma skip_ws_length: "length (skip_ws s) \<le> length s"
  by (simp add: skip_ws_def length_dropWhile_le)

lemma scanstring_length: "scanstring s = Some (t, r) \<Longrightarrow> length r < length s"
proof (induction s arbitrary: t r rule: scanstring.induct)
  case 1
  then show ?case by simp
next
  case (2 c cs)
  then show ?case
    by (auto simp: prepend_def split: if_splits list.splits option.splits) fastforce+
qed

lemma scan_fraction_length: "length (snd (scan_fraction s)) \<le> length s"
  by (auto simp: scan_fraction_def split: list.splits intro: le_SucI length_dropWhile_le)

lemma scan_exponent_length: "length (snd (scan_exponent s)) \<le> length s"
  by (auto simp: scan_exponent_def Let_def split: list.splits prod.splits if_splits
      intro!: le_SucI order_trans [OF length_dropWhile_le])

lemma scan_number_length:
  assumes "scan_number s = Some (v, r)"
  shows "length r < length s"
proof -
  obtain sgn s1 where s1: "(case s of [] \<Rightarrow> (1::int, s) | m # r \<Rightarrow> if m = CHR ''-'' then (- 1, r) else (1, s)) = (sgn, s1)"
    by (cases "(case s of [] \<Rightarrow> (1::int, s) | m # r \<Rightarrow> if m = CHR ''-'' then (- 1, r) else (1, s))")
  then have l1: "length s1 \<le> length s"
    by (auto split: list.splits if_splits)
  from assms s1 obtain d r0 where d: "s1 = d # r0" "digit d"
    by (cases s1) (auto simp: scan_number_def split: if_splits)
  obtain ip s2 where s2: "(if d = CHR ''0'' then ([d], r0) else (d # takeWhile digit r0, dropWhile digit r0)) = (ip, s2)"
    by (cases "(if d = CHR ''0'' then ([d], r0) else (d # takeWhile digit r0, dropWhile digit r0))")
  then have l2: "length s2 \<le> length r0"
    by (auto split: if_splits simp: length_dropWhile_le)
  obtain fp s3 where s3: "scan_fraction s2 = (fp, s3)" by (cases "scan_fraction s2")
  obtain ep s4 where s4: "scan_exponent s3 = (ep, s4)" by (cases "scan_exponent s3")
  have l3: "length s3 \<le> length s2" using scan_fraction_length [of s2] s3 by simp
  have l4: "length s4 \<le> length s3" using scan_exponent_length [of s3] s4 by simp
  from assms have "r = s4"
    unfolding scan_number_def s1 Let_def prod.case d list.case using d(2) s2 s3 s4
    by (auto split: option.splits)
  with l1 l2 l3 l4 d show ?thesis by simp
qed


lemma skip_ws_Cons_length: "skip_ws s = x # r \<Longrightarrow> length r < length s"
  using skip_ws_length [of s] by simp

lemma prefix_drop_length: "prefix p s \<Longrightarrow> p \<noteq> [] \<Longrightarrow> length (drop (length p) s) < length s"
  by (auto simp: prefix_def)

lemma scan_atom_length:
  assumes "scan_atom s = Some (v, r)"
  shows "length r < length s"
  using assms prefix_drop_length [of "''null''" s] prefix_drop_length [of "''true''" s]
    prefix_drop_length [of "''false''" s] prefix_drop_length [of "''NaN''" s]
    prefix_drop_length [of "''Infinity''" s] prefix_drop_length [of "''-Infinity''" s]
  unfolding scan_atom_def
  by (auto split: if_splits option.splits dest: scan_number_length)

lemma parse_length:
  "parse_value n s = Some (v, r) \<Longrightarrow> length r < length s"
  "parse_members n d s = Some (v, r) \<Longrightarrow> length r < length s"
  "parse_items n xs s = Some (v, r) \<Longrightarrow> length r < length s"
proof (induction n s and n d s and n xs s arbitrary: v r and v r and v r
    rule: parse_value_parse_members_parse_items.induct)
  case (1 s)
  then show ?case by simp
next
  case (2 n s)
  show ?case
  proof (cases s)
    case Nil
    with 2(3) show ?thesis by simp
  next
    case (Cons c cs)
    consider (str) "c = CHR 0x22" | (obj) "c = CHR ''{''" | (arr) "c = CHR ''[''"
      | (other) "c \<noteq> CHR 0x22" "c \<noteq> CHR ''{''" "c \<noteq> CHR ''[''"
      by blast
    then show ?thesis
    proof cases
      case str
      with 2(3) Cons show ?thesis
        by (auto split: option.splits dest: scanstring_length)
    next
      case obj
      show ?thesis
      proof (cases "skip_ws cs")
        case Nil
        with 2(3) Cons obj show ?thesis by simp
      next
        case (Cons x r0)
        note sk = this
        have l: "length r0 < length cs" using sk by (rule skip_ws_Cons_length)
        show ?thesis
        proof (cases "x = CHR ''}''")
          case True
          with 2(3) \<open>s = c # cs\<close> obj sk l show ?thesis by simp
        next
          case False
          show ?thesis
          proof (cases "x = CHR 0x22")
            case True
            with 2(3) \<open>s = c # cs\<close> obj sk False have "parse_members n [] r0 = Some (v, r)"
              by simp
            from "2.IH"(1) [OF \<open>s = c # cs\<close> _ obj sk False True this] obj
            have "length r < length r0" by simp
            with l \<open>s = c # cs\<close> show ?thesis by simp
          next
            case F2: False
            with 2(3) \<open>s = c # cs\<close> obj sk False show ?thesis by simp
          qed
        qed
      qed
    next
      case arr
      show ?thesis
      proof (cases "skip_ws cs")
        case Nil
        with 2(3) Cons arr show ?thesis by simp
      next
        case (Cons x r0)
        note sk = this
        have l: "length r0 < length cs" using sk by (rule skip_ws_Cons_length)
        show ?thesis
        proof (cases "x = CHR '']''")
          case True
          with 2(3) \<open>s = c # cs\<close> arr sk l show ?thesis by simp
        next
          case False
          with 2(3) \<open>s = c # cs\<close> arr sk have "parse_items n [] (x # r0) = Some (v, r)"
            by simp
          from "2.IH"(2) [OF \<open>s = c # cs\<close> _ _ arr sk False this] arr
          have "length r < length (x # r0)" by simp
          with l \<open>s = c # cs\<close> show ?thesis by simp
        qed
      qed
    next
      case other
      from 2(3) Cons other have "scan_atom s = Some (v, r)"
        by simp
      then show ?thesis by (rule scan_atom_length)
    qed
  qed
next
  case (3 d s)
  then show ?case by simp
next
  case (4 n d s)
  from 4(3) obtain key r1 where k: "scanstring s = Some (key, r1)"
    by (auto split: option.splits)
  with 4(3) obtain x r2 where x: "skip_ws r1 = x # r2"
    by (cases "skip_ws r1") auto
  with 4(3) k have colon: "\<not> x \<noteq> CHR '':''"
    by (auto split: if_splits)
  with 4(3) k x obtain v1 r3 where pv: "parse_value n (skip_ws r2) = Some (v1, r3)"
    by (auto split: option.splits)
  with 4(3) k x colon obtain y r4 where y: "skip_ws r3 = y # r4"
    by (cases "skip_ws r3") auto
  have l1: "length r1 < length s" using k by (rule scanstring_length)
  have l2: "length r2 < length r1" using x by (rule skip_ws_Cons_length)
  have l3: "length r3 < length (skip_ws r2)"
    using "4.IH"(1) [OF k refl x colon pv] .
  have l3': "length (skip_ws r2) \<le> length r2" by (rule skip_ws_length)
  have l4: "length r4 < length r3" using y by (rule skip_ws_Cons_length)
  show ?case
  proof (cases "y = CHR ''}''")
    case True
    with 4(3) k x colon pv y have "r = r4" by simp
    with l1 l2 l3 l3' l4 show ?thesis by simp
  next
    case False
    show ?thesis
    proof (cases "y = CHR '',''")
      case True
      with 4(3) k x colon pv y False obtain q r5 where q: "skip_ws r4 = q # r5"
        by (cases "skip_ws r4") auto
      with 4(3) k x colon pv y False True have q2: "q = CHR 0x22"
        by (auto split: if_splits)
      with 4(3) k x colon pv y False True q
      have "parse_members n (dict_set d key v1) r5 = Some (v, r)" by simp
      from "4.IH"(2) [OF k refl x colon pv refl y False True q q2 this]
      have "length r < length r5" .
      moreover have "length r5 < length r4" using q by (rule skip_ws_Cons_length)
      ultimately show ?thesis using l1 l2 l3 l3' l4 by simp
    next
      case F2: False
      with 4(3) k x colon pv y False show ?thesis by simp
    qed
  qed
next
  case (5 xs s)
  then show ?case by simp
next
  case (6 n xs s)
  from 6(3) obtain v1 r1 where pv: "parse_value n s = Some (v1, r1)"
    by (auto split: option.splits)
  with 6(3) obtain y r2 where y: "skip_ws r1 = y # r2"
    by (cases "skip_ws r1") auto
  have l1: "length r1 < length s" using "6.IH"(1) [OF pv] .
  have l2: "length r2 < length r1" using y by (rule skip_ws_Cons_length)
  show ?case
  proof (cases "y = CHR '']''")
    case True
    with 6(3) pv y have "r = r2" by simp
    with l1 l2 show ?thesis by simp
  next
    case False
    show ?thesis
    proof (cases "y = CHR '',''")
      case True
      with 6(3) pv y False have "parse_items n (xs @ [v1]) (skip_ws r2) = Some (v, r)"
        by simp
      from "6.IH"(2) [OF pv refl y False True this]
      have "length r < length (skip_ws r2)" .
      with l1 l2 skip_ws_length [of r2] show ?thesis by simp
    next
      case F2: False
      with 6(3) pv y False show ?thesis by simp
    qed
  qed
qed


lemma parse_fuel:
  "2 * length s < n \<Longrightarrow> n \<le> m \<Longrightarrow> parse_value m s = parse_value n s"
  "2 * length s + 1 < n \<Longrightarrow> n \<le> m \<Longrightarrow> parse_members m d s = parse_members n d s"
  "2 * length s + 1 < n \<Longrightarrow> n \<le> m \<Longrightarrow> parse_items m xs s = parse_items n xs s"
proof (induction n s and n d s and n xs s arbitrary: m and m and m
    rule: parse_value_parse_members_parse_items.induct)
  case (1 s)
  then show ?case by simp
next
  case (2 n s)
  from 2(4) obtain k where m: "m = Suc k" and nk: "n \<le> k"
    by (cases m) auto
  show ?case
  proof (cases s)
    case Nil
    then show ?thesis by (simp add: m)
  next
    case (Cons c cs)
    consider (str) "c = CHR 0x22" | (obj) "c = CHR ''{''" | (arr) "c = CHR ''[''"
      | (other) "c \<noteq> CHR 0x22" "c \<noteq> CHR ''{''" "c \<noteq> CHR ''[''"
      by blast
    then show ?thesis
    proof cases
      case str
      with Cons show ?thesis by (simp add: m)
    next
      case obj
      show ?thesis
      proof (cases "skip_ws cs")
        case Nil
        with Cons obj show ?thesis by (simp add: m)
      next
        case (Cons x r0)
        note sk = this
        have l: "length r0 < length cs" using sk by (rule skip_ws_Cons_length)
        show ?thesis
        proof (cases "x = CHR 0x22")
          case True
          then have ne: "x \<noteq> CHR ''}''" by simp
          have "2 * length r0 + 1 < n" using l 2(3) \<open>s = c # cs\<close> by simp
          from "2.IH"(1) [OF \<open>s = c # cs\<close> _ obj sk ne True this nk] obj
          have "parse_members k [] r0 = parse_members n [] r0" by simp
          with \<open>s = c # cs\<close> obj sk True show ?thesis by (simp add: m)
        next
          case False
          with \<open>s = c # cs\<close> obj sk show ?thesis by (simp add: m)
        qed
      qed
    next
      case arr
      show ?thesis
      proof (cases "skip_ws cs")
        case Nil
        with Cons arr show ?thesis by (simp add: m)
      next
        case (Cons x r0)
        note sk = this
        have l: "length r0 < length cs" using sk by (rule skip_ws_Cons_length)
        show ?thesis
        proof (cases "x = CHR '']''")
          case True
          with \<open>s = c # cs\<close> arr sk show ?thesis by (simp add: m)
        next
          case False
          have "2 * length (x # r0) + 1 < n" using l 2(3) \<open>s = c # cs\<close> by simp
          from "2.IH"(2) [OF \<open>s = c # cs\<close> _ _ arr sk False this nk] arr
          have "parse_items k [] (x # r0) = parse_items n [] (x # r0)" by simp
          with \<open>s = c # cs\<close> arr sk False show ?thesis by (simp add: m)
        qed
      qed
    next
      case other
      with Cons show ?thesis by (simp add: m)
    qed
  qed
next
  case (3 d s)
  then show ?case by simp
next
  case (4 n d s)
  from 4(4) obtain k where m: "m = Suc k" and nk: "n \<le> k"
    by (cases m) auto
  show ?case
  proof (cases "scanstring s")
    case None
    then show ?thesis by (simp add: m)
  next
    case (Some p)
    obtain key r1 where p: "p = (key, r1)" by (cases p)
    with Some have key: "scanstring s = Some (key, r1)" by simp
    have l1: "length r1 < length s" using key by (rule scanstring_length)
    show ?thesis
    proof (cases "skip_ws r1")
      case Nil
      with key show ?thesis by (simp add: m)
    next
      case (Cons x r2)
      note x = this
      have l2: "length r2 < length r1" using x by (rule skip_ws_Cons_length)
      show ?thesis
      proof (cases "x = CHR '':''")
        case False
        with key x show ?thesis by (simp add: m)
      next
        case True
        then have colon: "\<not> x \<noteq> CHR '':''" by simp
        have "2 * length (skip_ws r2) < n"
          using l1 l2 skip_ws_length [of r2] 4(3) by simp
        from "4.IH"(1) [OF key refl x colon this nk]
        have pv: "parse_value k (skip_ws r2) = parse_value n (skip_ws r2)" .
        show ?thesis
        proof (cases "parse_value n (skip_ws r2)")
          case None
          with key x True pv show ?thesis by (simp add: m)
        next
          case (Some q)
          obtain v1 r3 where q: "q = (v1, r3)" by (cases q)
          with Some have v1: "parse_value n (skip_ws r2) = Some (v1, r3)" by simp
          have l3: "length r3 < length (skip_ws r2)" using v1 by (rule parse_length(1))
          show ?thesis
          proof (cases "skip_ws r3")
            case Nil
            with key x True pv v1 show ?thesis by (simp add: m)
          next
            case (Cons y r4)
            note y = this
            have l4: "length r4 < length r3" using y by (rule skip_ws_Cons_length)
            show ?thesis
            proof (cases "y = CHR '',''")
              case False
              with key x True pv v1 y show ?thesis by (simp add: m)
            next
              case comma: True
              then have nb: "y \<noteq> CHR ''}''" by simp
              show ?thesis
              proof (cases "skip_ws r4")
                case Nil
                with key x True pv v1 y comma show ?thesis by (simp add: m)
              next
                case (Cons q0 r5)
                note q0 = this
                have l5: "length r5 < length r4" using q0 by (rule skip_ws_Cons_length)
                show ?thesis
                proof (cases "q0 = CHR 0x22")
                  case False
                  with key x True pv v1 y comma q0 show ?thesis by (simp add: m)
                next
                  case quote: True
                  have "2 * length r5 + 1 < n"
                    using l1 l2 l3 l4 l5 skip_ws_length [of r2] 4(3) by simp
                  from "4.IH"(2) [OF key refl x colon v1 refl y nb comma q0 quote this nk]
                  have "parse_members k (dict_set d key v1) r5 =
                      parse_members n (dict_set d key v1) r5" .
                  with key x True pv v1 y comma q0 quote show ?thesis by (simp add: m)
                qed
              qed
            qed
          qed
        qed
      qed
    qed
  qed
next
  case (5 xs s)
  then show ?case by simp
next
  case (6 n xs s)
  from 6(4) obtain k where m: "m = Suc k" and nk: "n \<le> k"
    by (cases m) auto
  have "2 * length s < n" using 6(3) by simp
  from "6.IH"(1) [OF this nk]
  have pv: "parse_value k s = parse_value n s" .
  show ?case
  proof (cases "parse_value n s")
    case None
    with pv show ?thesis by (simp add: m)
  next
    case (Some q)
    obtain v1 r1 where q: "q = (v1, r1)" by (cases q)
    with Some have v1: "parse_value n s = Some (v1, r1)" by simp
    have l1: "length r1 < length s" using v1 by (rule parse_length(1))
    show ?thesis
    proof (cases "skip_ws r1")
      case Nil
      with pv v1 show ?thesis by (simp add: m)
    next
      case (Cons y r2)
      note y = this
      have l2: "length r2 < length r1" using y by (rule skip_ws_Cons_length)
      show ?thesis
      proof (cases "y = CHR '',''")
        case False
        with pv v1 y show ?thesis by (simp add: m)
      next
        case comma: True
        then have nb: "y \<noteq> CHR '']''" by simp
        have "2 * length (skip_ws r2) + 1 < n"
          using l1 l2 skip_ws_length [of r2] 6(3) by simp
        from "6.IH"(2) [OF v1 refl y nb comma this nk]
        have "parse_items k (xs @ [v1]) (skip_ws r2) = parse_items n (xs @ [v1]) (skip_ws r2)" .
        with pv v1 y comma show ?thesis by (simp add: m)
      qed
    qed
  qed
qed

lemma parse_value_enough_fuel:
  assumes "2 * length s < n"
  shows "parse_value n (skip_ws s) = parse_value (Suc (2 * length s)) (skip_ws s)"
proof -
  have "2 * length (skip_ws s) < Suc (2 * length s)"
    using skip_ws_length [of s] by simp
  moreover have "Suc (2 * length s) \<le> n" using assms by simp
  ultimately show ?thesis by (rule parse_fuel(1))
qed

lemma json_loads_enough_fuel:
  assumes "2 * length s < n"
  shows "json_loads s =
     (case parse_value n (skip_ws s) of
        None \<Rightarrow> None
      | Some (v, r) \<Rightarrow> if skip_ws r = [] then Some v else None)"
  unfolding json_loads_def parse_value_enough_fuel [OF assms] ..

subsection \<open>What the classifier returns\<close>

text \<open>
  The classifier returns \<open>None\<close> or a dict, so that the only exception that reply
  selection can raise in a run is the \<open>TypeError\<close> of \<open>re.sub\<close> on a draft that
  is no text.
\<close>

lemma parse_members_dict:
  "parse_members n d s = Some (v, r) \<Longrightarrow> \<exists>d'. v = JObject d'"
proof (induction n arbitrary: d s)
  case 0
  then show ?case by simp
next
  case (Suc n)
  from Suc.prems Suc.IH show ?case
    by (auto split: option.splits list.splits if_splits)
qed

lemma parse_value_brace_dict:
  "parse_value n (CHR ''{'' # cs) = Some (v, r) \<Longrightarrow> \<exists>d. v = JObject d"
  by (cases n)
    (auto simp del: parse_members.simps split: list.splits if_splits dest: parse_members_dict)

lemma search_braces_hd: "search_braces raw = Some m \<Longrightarrow> \<exists>cs. m = CHR ''{'' # cs"
  unfolding search_braces_Some_iff by auto

lemma parse_response_dict:
  assumes "parse_response t = Some v"
  shows "\<exists>d. v = JObject d"
proof -
  from assms obtain m where m: "search_braces (strip t) = Some m" and l: "json_loads m = Some v"
    by (auto simp: parse_response_def split: option.splits)
  from m obtain cs where cs: "m = CHR ''{'' # cs"
    using search_braces_hd by blast
  have sk: "skip_ws m = m"
    by (simp add: cs skip_ws_def json_ws_def)
  from l obtain r where "parse_value (Suc (2 * length m)) m = Some (v, r)"
    by (auto simp: json_loads_def sk split: option.splits prod.splits if_splits)
  then show ?thesis
    unfolding cs by (rule parse_value_brace_dict)
qed

lemma run_ai_agent_dict: "run_ai_agent w ed = Some v \<Longrightarrow> \<exists>d. v = JObject d"
  by (auto simp: run_ai_agent_def split: option.splits ai_response.splits
      dest: parse_response_dict)

lemma select_reply_dict_error:
  "select_reply (Some (JObject d)) = Inl e \<Longrightarrow> e = TypeError"
  by (auto simp: select_reply_def choose_draft_dict finish_reply_def split: json.splits)

lemma workflow_raises_only_TypeError:
  "raised (main_agent_workflow w) = Some e \<Longrightarrow> e = TypeError"
proof -
  assume a: "raised (main_agent_workflow w) = Some e"
  then obtain sender subj b w1 where
    s: "select_reply (run_ai_agent w1 \<lparr>from_email = sender, subject = subj, body = b\<rparr>) = Inl e"
    by (auto simp: main_agent_workflow_def Let_def split: prod.splits option.splits if_splits sum.splits)
  show ?thesis
  proof (cases "run_ai_agent w1 \<lparr>from_email = sender, subject = subj, body = b\<rparr>")
    case None
    with s show ?thesis
      by (simp add: select_reply_def choose_draft_def finish_reply_def)
  next
    case (Some v)
    with run_ai_agent_dict obtain d where "v = JObject d" by blast
    with s Some show ?thesis by (auto dest: select_reply_dict_error)
  qed
qed

section \<open>The claims\<close>

text \<open>
  C1, as the code has it. When the draft field chosen by the policy is missing from
  the classification, \<open>select_reply\<close> returns exactly \<open>SAFE_DEFAULT_REPLY\<close>; when
  the field is there and is the empty text, \<open>select_reply\<close> returns the greeting
  prefix alone, \<open>Hello,\<close> and two line feeds.
\<close>

theorem select_reply_missing_or_empty_draft:
  "(map_of d (chosen_field d) = None \<longrightarrow>
      select_reply (Some (JObject d)) = Inr SAFE_DEFAULT_REPLY) \<and>
   (map_of d (chosen_field d) = Some (JString []) \<longrightarrow>
      select_reply (Some (JObject d)) = Inr ''Hello,\<newline>\<newline>'')"
proof -
  have "normalize_greeting (sanitize []) = ''Hello,\<newline>\<newline>''"
    by code_simp
  then show ?thesis
    by (simp add: select_reply_def choose_draft_dict dict_get_def finish_reply_def
        sanitize_SAFE_DEFAULT_REPLY normalize_greeting_SAFE_DEFAULT_REPLY)
qed

theorem select_reply_missing_or_empty_draft_witness:
  "select_reply (Some (JObject [(''is_technical'', JBool True), (''request_meeting'', JBool True)]))
     = Inr SAFE_DEFAULT_REPLY \<and>
   select_reply (Some (JObject [(''is_technical'', JBool True), (''simple_reply_draft'', JString [])]))
     = Inr ''Hello,\<newline>\<newline>''"
proof -
  have "map_of [(''is_technical'', JBool True), (''request_meeting'', JBool True)]
          (chosen_field [(''is_technical'', JBool True), (''request_meeting'', JBool True)]) = None"
    by code_simp
  moreover have "map_of [(''is_technical'', JBool True), (''simple_reply_draft'', JString [])]
          (chosen_field [(''is_technical'', JBool True), (''simple_reply_draft'', JString [])])
        = Some (JString [])"
    by code_simp
  ultimately show ?thesis
    using select_reply_missing_or_empty_draft [of "[(''is_technical'', JBool True), (''request_meeting'', JBool True)]"]
      select_reply_missing_or_empty_draft [of "[(''is_technical'', JBool True), (''simple_reply_draft'', JString [])]"]
    by blast
qed

text \<open>
  C1 as stated fails: with \<open>is_technical\<close> false and \<open>non_technical_reply_draft\<close>
  present and empty, the reply is the greeting prefix, not \<open>SAFE_DEFAULT_REPLY\<close>.
\<close>

theorem empty_draft_counterexample:
  "map_of [(''is_technical'', JBool False), (''simple_reply_draft'', JString ''s''),
           (''non_technical_reply_draft'', JString []), (''request_meeting'', JBool False),
           (''meeting_suggestion_draft'', JString ''g'')] ''non_technical_reply_draft''
     = Some (JString []) \<and>
   select_reply (Some (classification False ''s'' [] False ''g'')) = Inr ''Hello,\<newline>\<newline>'' \<and>
   select_reply (Some (classification False ''s'' [] False ''g'')) \<noteq> Inr SAFE_DEFAULT_REPLY"
  by code_simp

text \<open>
  C2, as the code has it. \<open>_run_ai_agent\<close> does not check the required fields: when
  the text between the first \<open>{\<close> and the last \<open>}\<close> of the response decodes to
  a value that lacks a required field, it returns that value as decoded, a partial
  record.
\<close>

theorem run_ai_agent_returns_partial_record:
  assumes "gemini_client w = Some generate_content"
    and "generate_content ed = Text t"
    and "search_braces (strip t) = Some m"
    and "json_loads m = Some v"
    and "\<not> has_required_fields v"
  shows "run_ai_agent w ed = Some v"
  using assms by (simp add: run_ai_agent_def parse_response_def)

theorem run_ai_agent_returns_partial_record_witness:
  \<open>run_ai_agent (answering ''Sure: {"request_meeting": false} '') example_data
     = Some (JObject [(''request_meeting'', JBool False)])\<close>
proof -
  have c: \<open>gemini_client (answering ''Sure: {"request_meeting": false} '')
      = Some (\<lambda>ed. Text ''Sure: {"request_meeting": false} '')\<close>
    by (simp add: answering_def example_world_def)
  have s: \<open>search_braces (strip ''Sure: {"request_meeting": false} '')
      = Some ''{"request_meeting": false}''\<close>
    by code_simp
  have l: \<open>json_loads ''{"request_meeting": false}''
      = Some (JObject [(''request_meeting'', JBool False)])\<close>
    by code_simp
  have h: "\<not> has_required_fields (JObject [(''request_meeting'', JBool False)])"
    by code_simp
  from run_ai_agent_returns_partial_record [OF c refl s l h] show ?thesis .
qed

text \<open>
  C2 as stated fails: a response whose object has \<open>is_technical\<close> only is returned
  as that one-field dict, not as \<open>None\<close>.
\<close>

theorem partial_record_counterexample:
  \<open>\<not> has_required_fields (JObject [(''is_technical'', JBool True)]) \<and>
   run_ai_agent (answering ''{"is_technical": true}'') example_data
     = Some (JObject [(''is_technical'', JBool True)])\<close>
proof -
  have \<open>parse_response ''{"is_technical": true}'' = Some (JObject [(''is_technical'', JBool True)])\<close>
    by code_simp
  moreover have "\<not> has_required_fields (JObject [(''is_technical'', JBool True)])"
    by code_simp
  ultimately show ?thesis
    by (simp add: run_ai_agent_def answering_def example_world_def)
qed

text \<open>
  C3, as the code has it. For a classification with the five fields, the flags
  booleans and the drafts texts: when \<open>is_technical\<close> and \<open>request_meeting\<close> are
  true and \<open>meeting_suggestion_draft\<close> is non-empty, \<open>select_reply\<close> returns that
  draft sanitised and then greeting-normalised, that is with \<open>Hello,\<close> and two line
  feeds put before the sanitised draft unless its lowercase form already starts with a
  greeting token; when \<open>is_technical\<close> is true, \<open>request_meeting\<close> false and
  \<open>simple_reply_draft\<close> non-empty, it returns that draft so processed; when
  \<open>is_technical\<close> is false and \<open>non_technical_reply_draft\<close> non-empty, it returns
  that draft so processed.
\<close>

theorem select_reply_policy:
  assumes "map_of d ''is_technical'' = Some (JBool t)"
    and "map_of d ''request_meeting'' = Some (JBool m)"
    and "map_of d ''simple_reply_draft'' = Some (JString s)"
    and "map_of d ''non_technical_reply_draft'' = Some (JString n)"
    and "map_of d ''meeting_suggestion_draft'' = Some (JString g)"
  shows "(t \<and> m \<and> g \<noteq> [] \<longrightarrow>
            select_reply (Some (JObject d)) = Inr (normalize_greeting (sanitize g))) \<and>
         (t \<and> \<not> m \<and> s \<noteq> [] \<longrightarrow>
            select_reply (Some (JObject d)) = Inr (normalize_greeting (sanitize s))) \<and>
         (\<not> t \<and> n \<noteq> [] \<longrightarrow>
            select_reply (Some (JObject d)) = Inr (normalize_greeting (sanitize n)))"
  using assms
  by (simp add: select_reply_def choose_draft_dict chosen_field_def dict_get_def finish_reply_def)

theorem select_reply_policy_witness:
  "select_reply (Some (classification True ''s'' ''n'' True ''Let us meet Friday at 3PM.''))
     = Inr ''Hello,\<newline>\<newline>Let us meet Friday at 3PM.'' \<and>
   select_reply (Some (classification True '' <p>Hi Bob,</p> use ARIMA. '' ''n'' False ''g''))
     = Inr ''Hi Bob, use ARIMA.'' \<and>
   select_reply (Some (classification False ''s'' ''Dear Bob, thanks.'' True ''g''))
     = Inr ''Dear Bob, thanks.''"
proof -
  have a: "normalize_greeting (sanitize ''Let us meet Friday at 3PM.'')
             = ''Hello,\<newline>\<newline>Let us meet Friday at 3PM.''"
    by code_simp
  have b: "normalize_greeting (sanitize '' <p>Hi Bob,</p> use ARIMA. '') = ''Hi Bob, use ARIMA.''"
    by code_simp
  have c: "normalize_greeting (sanitize ''Dear Bob, thanks.'') = ''Dear Bob, thanks.''"
    by code_simp
  show ?thesis
    using
      select_reply_policy [of "[(''is_technical'', JBool True), (''simple_reply_draft'', JString ''s''),
              (''non_technical_reply_draft'', JString ''n''), (''request_meeting'', JBool True),
              (''meeting_suggestion_draft'', JString ''Let us meet Friday at 3PM.'')]"
           True True "''s''" "''n''" "''Let us meet Friday at 3PM.''"]
      select_reply_policy [of "[(''is_technical'', JBool True), (''simple_reply_draft'', JString '' <p>Hi Bob,</p> use ARIMA. ''),
              (''non_technical_reply_draft'', JString ''n''), (''request_meeting'', JBool False),
              (''meeting_suggestion_draft'', JString ''g'')]"
           True False "'' <p>Hi Bob,</p> use ARIMA. ''" "''n''" "''g''"]
      select_reply_policy [of "[(''is_technical'', JBool False), (''simple_reply_draft'', JString ''s''),
              (''non_technical_reply_draft'', JString ''Dear Bob, thanks.''), (''request_meeting'', JBool True),
              (''meeting_suggestion_draft'', JString ''g'')]"
           False True "''s''" "''Dear Bob, thanks.''" "''g''"]
    unfolding a b c classification_def
    by simp
qed

text \<open>
  C3 as stated fails: a meeting draft without greeting token, free of tags and of
  surrounding whitespace, is its own sanitation, and the reply returned is not that
  text but the text after the greeting prefix.
\<close>

theorem draft_without_greeting_counterexample:
  "sanitize ''Let us meet Friday at 3PM.'' = ''Let us meet Friday at 3PM.'' \<and>
   select_reply (Some (classification True ''s'' ''n'' True ''Let us meet Friday at 3PM.''))
     = Inr ''Hello,\<newline>\<newline>Let us meet Friday at 3PM.'' \<and>
   select_reply (Some (classification True ''s'' ''n'' True ''Let us meet Friday at 3PM.''))
     \<noteq> Inr (sanitize ''Let us meet Friday at 3PM.'')"
  by code_simp

text \<open>
  C4. When the classifier returns \<open>None\<close>, the reply selected is the literal
  \<open>SAFE_DEFAULT_REPLY\<close>, which sanitation and greeting normalisation leave as it is,
  and the run of the workflow on a fetched message sends exactly that text to the
  sender of the message.
\<close>

theorem none_classification_sends_safe_default:
  assumes "fetch_latest_unread_email w = (Some (sender, subj, b), w1)"
    and "sender \<noteq> []"
    and "run_ai_agent w1 \<lparr>from_email = sender, subject = subj, body = b\<rparr> = None"
  shows "select_reply None = Inr SAFE_DEFAULT_REPLY \<and>
         sanitize SAFE_DEFAULT_REPLY = SAFE_DEFAULT_REPLY \<and>
         normalize_greeting SAFE_DEFAULT_REPLY = SAFE_DEFAULT_REPLY \<and>
         events (main_agent_workflow w) =
           [Classify \<lparr>from_email = sender, subject = subj, body = b\<rparr>,
            SendAttempt sender (''Re: '' @ subj) SAFE_DEFAULT_REPLY]"
proof -
  have s: "select_reply None = Inr SAFE_DEFAULT_REPLY"
    by (simp add: select_reply_def choose_draft_def finish_reply_def
        sanitize_SAFE_DEFAULT_REPLY normalize_greeting_SAFE_DEFAULT_REPLY)
  with assms show ?thesis
    by (simp add: main_agent_workflow_def Let_def sanitize_SAFE_DEFAULT_REPLY
        normalize_greeting_SAFE_DEFAULT_REPLY split: prod.splits)
qed

theorem none_classification_sends_safe_default_witness:
  "events (main_agent_workflow (example_world None example_mail)) =
     [Classify \<lparr>from_email = ''bob@example.org'', subject = ''ARIMA or LSTM?'',
                 body = ''Which model fits weekly sales?''\<rparr>,
      SendAttempt ''bob@example.org'' ''Re: ARIMA or LSTM?'' SAFE_DEFAULT_REPLY]"
proof -
  have sender: "extract_sender ''Bob <bob@example.org>'' = ''bob@example.org''"
    by code_simp
  have f: "fetch_latest_unread_email (example_world None example_mail) =
      (Some (''bob@example.org'', ''ARIMA or LSTM?'', ''Which model fits weekly sales?''),
       (example_world None example_mail)\<lparr>unseen := [4]\<rparr>)"
    by (simp add: fetch_latest_unread_email_def example_world_def example_mail_def
        credentials_missing_def extract_body_def sender)
  have n: "''bob@example.org'' \<noteq> []"
    by simp
  have a: "run_ai_agent ((example_world None example_mail)\<lparr>unseen := [4]\<rparr>)
      \<lparr>from_email = ''bob@example.org'', subject = ''ARIMA or LSTM?'',
         body = ''Which model fits weekly sales?''\<rparr> = None"
    by (simp add: run_ai_agent_def example_world_def)
  from none_classification_sends_safe_default [OF f n a] show ?thesis
    by simp
qed

text \<open>
  C5. Every final reply that \<open>select_reply\<close> produces, and so every reply that a
  run of the workflow hands to the sender, is non-empty, and its lowercase form starts
  with \<open>hello\<close>, \<open>hi\<close>, \<open>dear\<close> or \<open>thank you\<close>.
\<close>

theorem final_reply_greeting:
  assumes "select_reply ai_output = Inr reply \<or>
           SendAttempt to_email subj reply \<in> set (events (main_agent_workflow w))"
  shows "reply \<noteq> [] \<and>
         (prefix ''hello'' (lower reply) \<or> prefix ''hi'' (lower reply) \<or>
          prefix ''dear'' (lower reply) \<or> prefix ''thank you'' (lower reply))"
proof -
  from assms obtain ai where "select_reply ai = Inr reply"
    using sent_reply_selected by blast
  then obtain s where r: "reply = normalize_greeting (sanitize s)"
    by (rule select_reply_cases)
  have "startswith (lower (''Hello,\<newline>\<newline>'' @ sanitize s)) greeting_tokens"
    unfolding lower_Hello by (simp add: startswith_def greeting_tokens_def)
  then have g: "startswith (lower reply) greeting_tokens"
    using normalize_greeting_cases [of "sanitize s"] r by metis
  then have "reply \<noteq> []"
    by (auto simp: startswith_def greeting_tokens_def lower_def)
  with g show ?thesis
    by (simp add: startswith_def greeting_tokens_def)
qed

theorem final_reply_greeting_witness:
  "''Hello,\<newline>\<newline>'' \<noteq> [] \<and>
   (prefix ''hello'' (lower ''Hello,\<newline>\<newline>'') \<or> prefix ''hi'' (lower ''Hello,\<newline>\<newline>'') \<or>
    prefix ''dear'' (lower ''Hello,\<newline>\<newline>'') \<or> prefix ''thank you'' (lower ''Hello,\<newline>\<newline>''))"
proof -
  have "select_reply (Some (JObject [(''is_technical'', JBool False),
          (''non_technical_reply_draft'', JString '' <br> '')])) = Inr ''Hello,\<newline>\<newline>''"
    by code_simp
  then show ?thesis
    using final_reply_greeting by blast
qed

text \<open>
  C6. Whatever the classification, a final reply that \<open>select_reply\<close> produces,
  and so every reply that a run of the workflow hands to the sender, has no substring
  made of \<open><\<close>, one or more characters other than \<open>>\<close>, and \<open>>\<close>.
\<close>

theorem final_reply_has_no_tag:
  assumes "select_reply ai_output = Inr reply \<or>
           SendAttempt to_email subj reply \<in> set (events (main_agent_workflow w))"
  shows "\<not> (\<exists>pre mid post. reply = pre @ CHR ''<'' # mid @ CHR ''>'' # post \<and>
            mid \<noteq> [] \<and> CHR ''>'' \<notin> set mid)"
proof -
  from assms obtain ai where "select_reply ai = Inr reply"
    using sent_reply_selected by blast
  then obtain s where "reply = normalize_greeting (sanitize s)"
    by (rule select_reply_cases)
  then have "reply = sanitize s \<or> reply = ''Hello,\<newline>\<newline>'' @ sanitize s"
    using normalize_greeting_cases [of "sanitize s"] by auto
  then have "\<not> has_tag reply"
    using no_tag_sanitize [of s] has_tag_Hello [of "sanitize s"] by auto
  then show ?thesis
    unfolding has_tag_iff .
qed

theorem final_reply_has_no_tag_witness:
  "events (main_agent_workflow (answering tagged_answer)) =
     [Classify example_data,
      SendAttempt ''bob@example.org'' ''Re: ARIMA or LSTM?'' ''Hello,\<newline>\<newline>Let us meet''] \<and>
   \<not> (\<exists>pre mid post. ''Hello,\<newline>\<newline>Let us meet'' = pre @ CHR ''<'' # mid @ CHR ''>'' # post \<and>
            mid \<noteq> [] \<and> CHR ''>'' \<notin> set mid)"
proof -
  let ?w = "answering tagged_answer"
  have sender: "extract_sender ''Bob <bob@example.org>'' = ''bob@example.org''"
    by code_simp
  have f: "fetch_latest_unread_email ?w =
      (Some (''bob@example.org'', ''ARIMA or LSTM?'', ''Which model fits weekly sales?''),
       ?w\<lparr>unseen := [4]\<rparr>)"
    by (simp add: fetch_latest_unread_email_def answering_def example_world_def
        example_mail_def credentials_missing_def extract_body_def sender)
  have "select_reply (parse_response tagged_answer) = Inr ''Hello,\<newline>\<newline>Let us meet''"
    by code_simp
  then have "select_reply (run_ai_agent (?w\<lparr>unseen := [4]\<rparr>) example_data)
      = Inr ''Hello,\<newline>\<newline>Let us meet''"
    by (simp add: run_ai_agent_def answering_def example_world_def)
  with f have e: "events (main_agent_workflow ?w) =
     [Classify example_data,
      SendAttempt ''bob@example.org'' ''Re: ARIMA or LSTM?'' ''Hello,\<newline>\<newline>Let us meet'']"
    by (simp add: main_agent_workflow_def Let_def example_data_def split: prod.splits)
  then have "SendAttempt ''bob@example.org'' ''Re: ARIMA or LSTM?'' ''Hello,\<newline>\<newline>Let us meet''
      \<in> set (events (main_agent_workflow ?w))"
    by simp
  then have "\<not> (\<exists>pre mid post. ''Hello,\<newline>\<newline>Let us meet'' = pre @ CHR ''<'' # mid @ CHR ''>'' # post \<and>
            mid \<noteq> [] \<and> CHR ''>'' \<notin> set mid)"
    using final_reply_has_no_tag by blast
  with e show ?thesis by simp
qed

text \<open>
  C7. The sanitation of line 252, removing every match of \<open><[^>]+>\<close> and then
  trimming whitespace at both ends, is idempotent: on every text, applying it twice
  gives what applying it once gives.
\<close>

theorem sanitize_idempotent: "sanitize (sanitize s) = sanitize s"
proof -
  have "sub_tags (sanitize s) = sanitize s"
    by (rule sub_tags_id) (rule no_tag_sanitize)
  then show ?thesis
    by (simp add: sanitize_def strip_idem)
qed

theorem sanitize_idempotent_witness:
  "sanitize (sanitize ''  <p>Hi <b>Bob</b>, 2 <> 3 > 1</p>  '') = ''Hi Bob, 2 <> 3 > 1''"
proof -
  have "sanitize ''  <p>Hi <b>Bob</b>, 2 <> 3 > 1</p>  '' = ''Hi Bob, 2 <> 3 > 1''"
    by code_simp
  with sanitize_idempotent [of "''  <p>Hi <b>Bob</b>, 2 <> 3 > 1</p>  ''"] show ?thesis
    by simp
qed

text \<open>
  C8, as the code has it. The parsing step decodes the stretch of the stripped response
  text from its first \<open>{\<close> to its last \<open>}\<close>: text before the stretch is skipped
  when it has no \<open>{\<close>, text after it when it has no \<open>}\<close>, and the result is
  what the decoder gives for the whole stretch, \<open>None\<close> when it raises. When the
  text has no \<open>{\<close> with a \<open>}\<close> after it, the result is \<open>None\<close>.
\<close>

theorem parse_response_first_to_last_brace:
  "(strip t = pre @ CHR ''{'' # mid @ CHR ''}'' # post \<and>
      CHR ''{'' \<notin> set pre \<and> CHR ''}'' \<notin> set post \<longrightarrow>
      parse_response t = json_loads (CHR ''{'' # mid @ ''}'')) \<and>
   (\<not> (\<exists>p m q. strip t = p @ CHR ''{'' # m @ CHR ''}'' # q) \<longrightarrow> parse_response t = None)"
proof (intro conjI impI)
  assume "strip t = pre @ CHR ''{'' # mid @ CHR ''}'' # post \<and>
      CHR ''{'' \<notin> set pre \<and> CHR ''}'' \<notin> set post"
  then have "search_braces (strip t) = Some (CHR ''{'' # mid @ ''}'')"
    unfolding search_braces_Some_iff by blast
  then show "parse_response t = json_loads (CHR ''{'' # mid @ ''}'')"
    by (simp add: parse_response_def)
next
  assume "\<not> (\<exists>p m q. strip t = p @ CHR ''{'' # m @ CHR ''}'' # q)"
  then have "search_braces (strip t) = None"
    unfolding search_braces_None_iff .
  then show "parse_response t = None"
    by (simp add: parse_response_def)
qed


theorem parse_response_first_to_last_brace_witness:
  \<open>parse_response '' Here you go: {"request_meeting": true} (draft) ''
     = Some (JObject [(''request_meeting'', JBool True)]) \<and>
   parse_response ''} no object here {'' = None\<close>
proof -
  have s: \<open>strip '' Here you go: {"request_meeting": true} (draft) ''
      = ''Here you go: '' @ CHR ''{'' # ''"request_meeting": true'' @ CHR ''}'' # '' (draft)''\<close>
    by code_simp
  have l: \<open>json_loads (CHR ''{'' # ''"request_meeting": true'' @ ''}'')
      = Some (JObject [(''request_meeting'', JBool True)])\<close>
    by code_simp
  have "search_braces (strip ''} no object here {'') = None"
    by code_simp
  then have n: "\<not> (\<exists>p m q. strip ''} no object here {'' = p @ CHR ''{'' # m @ CHR ''}'' # q)"
    unfolding search_braces_None_iff .
  show ?thesis
    using parse_response_first_to_last_brace
        [of \<open>'' Here you go: {"request_meeting": true} (draft) ''\<close> "''Here you go: ''"
          \<open>''"request_meeting": true''\<close> "'' (draft)''"]
      parse_response_first_to_last_brace [of "''} no object here {''"] s l n
    by simp
qed

text \<open>
  C8 as stated fails: in a text that starts with a well-formed object and goes on with
  a remark in braces, the first well-formed object decodes, and the parsing step
  returns \<open>None\<close>.
\<close>

theorem first_object_counterexample:
  \<open>first_json_object ''{"is_technical": true} (see also {this})''
     = Some (JObject [(''is_technical'', JBool True)]) \<and>
   parse_response ''{"is_technical": true} (see also {this})'' = None\<close>
  by code_simp

text \<open>
  C9, as the code has it. When the fetch step yields no message, the run makes no
  classification and no send and leaves the outbox as it was. When it yields a message
  with a non-empty sender address and the run raises no exception, the run makes the
  classification and then exactly one send attempt, to that sender, with the reply
  selected from whatever the classifier returned.
\<close>

theorem workflow_send_attempts:
  "(fst (fetch_latest_unread_email w) = None \<longrightarrow>
      main_agent_workflow w =
        \<lparr>raised = None, events = [], final = snd (fetch_latest_unread_email w)\<rparr> \<and>
      outbox (final (main_agent_workflow w)) = outbox w) \<and>
   (fetch_latest_unread_email w = (Some (sender, subj, b), w1) \<and> sender \<noteq> [] \<and>
    raised (main_agent_workflow w) = None \<longrightarrow>
      (\<exists>reply.
         select_reply (run_ai_agent w1 \<lparr>from_email = sender, subject = subj, body = b\<rparr>)
           = Inr reply \<and>
         events (main_agent_workflow w) =
           [Classify \<lparr>from_email = sender, subject = subj, body = b\<rparr>,
            SendAttempt sender (''Re: '' @ subj) reply]))"
proof (intro conjI impI)
  assume n: "fst (fetch_latest_unread_email w) = None"
  then show "main_agent_workflow w =
        \<lparr>raised = None, events = [], final = snd (fetch_latest_unread_email w)\<rparr>"
    by (cases "fetch_latest_unread_email w") (simp add: main_agent_workflow_def)
  then show "outbox (final (main_agent_workflow w)) = outbox w"
    by (simp add: outbox_fetch)
next
  assume a: "fetch_latest_unread_email w = (Some (sender, subj, b), w1) \<and> sender \<noteq> [] \<and>
    raised (main_agent_workflow w) = None"
  let ?ed = "\<lparr>from_email = sender, subject = subj, body = b\<rparr>"
  show "\<exists>reply. select_reply (run_ai_agent w1 ?ed) = Inr reply \<and>
         events (main_agent_workflow w) = [Classify ?ed, SendAttempt sender (''Re: '' @ subj) reply]"
  proof (cases "select_reply (run_ai_agent w1 ?ed)")
    case (Inl e)
    with a have "raised (main_agent_workflow w) = Some e"
      by (simp add: main_agent_workflow_def Let_def)
    with a show ?thesis by simp
  next
    case (Inr reply)
    with a have "events (main_agent_workflow w) =
        [Classify ?ed, SendAttempt sender (''Re: '' @ subj) reply]"
      by (simp add: main_agent_workflow_def Let_def split: prod.splits)
    with Inr show ?thesis by simp
  qed
qed

theorem workflow_send_attempts_witness:
  "main_agent_workflow (answering technical_answer\<lparr>unseen := []\<rparr>) =
     \<lparr>raised = None, events = [], final = answering technical_answer\<lparr>unseen := []\<rparr>\<rparr> \<and>
   events (main_agent_workflow (answering technical_answer)) =
     [Classify example_data,
      SendAttempt ''bob@example.org'' ''Re: ARIMA or LSTM?'' ''Hi Bob, use ARIMA.'']"
proof -
  let ?idle = "answering technical_answer\<lparr>unseen := []\<rparr>"
  let ?w = "answering technical_answer"
  have "fetch_latest_unread_email ?idle = (None, ?idle)"
    by (simp add: fetch_latest_unread_email_def answering_def example_world_def
        credentials_missing_def)
  then have f0: "fst (fetch_latest_unread_email ?idle) = None"
    and s0: "snd (fetch_latest_unread_email ?idle) = ?idle"
    by simp_all
  have sender: "extract_sender ''Bob <bob@example.org>'' = ''bob@example.org''"
    by code_simp
  have f: "fetch_latest_unread_email ?w =
      (Some (''bob@example.org'', ''ARIMA or LSTM?'', ''Which model fits weekly sales?''),
       ?w\<lparr>unseen := [4]\<rparr>)"
    by (simp add: fetch_latest_unread_email_def answering_def example_world_def
        example_mail_def credentials_missing_def extract_body_def sender)
  have p: "select_reply (parse_response technical_answer) = Inr ''Hi Bob, use ARIMA.''"
    by code_simp
  then have sel: "select_reply (run_ai_agent (?w\<lparr>unseen := [4]\<rparr>)
      \<lparr>from_email = ''bob@example.org'', subject = ''ARIMA or LSTM?'',
         body = ''Which model fits weekly sales?''\<rparr>) = Inr ''Hi Bob, use ARIMA.''"
    by (simp add: run_ai_agent_def answering_def example_world_def)
  have r: "raised (main_agent_workflow ?w) = None"
    using f sel by (simp add: main_agent_workflow_def Let_def split: prod.splits)
  have n: "''bob@example.org'' \<noteq> []"
    by simp
  show ?thesis
    using workflow_send_attempts [of ?idle] f0 s0
      workflow_send_attempts [of ?w "''bob@example.org''" "''ARIMA or LSTM?''"
        "''Which model fits weekly sales?''" "?w\<lparr>unseen := [4]\<rparr>"] f n r sel
    by (simp add: example_data_def)
qed

text \<open>
  C9 as stated fails: a message without \<open>From\<close> header is fetched, and the run
  makes no send attempt.
\<close>

theorem fetched_but_not_sent_counterexample:
  "fst (fetch_latest_unread_email (example_world None mail_without_from)) =
     Some ([], ''ARIMA or LSTM?'', ''Which model fits weekly sales?'') \<and>
   events (main_agent_workflow (example_world None mail_without_from)) = []"
proof -
  have e: "extract_sender [] = []"
    by code_simp
  have "fetch_latest_unread_email (example_world None mail_without_from) =
      (Some ([], ''ARIMA or LSTM?'', ''Which model fits weekly sales?''),
       example_world None mail_without_from\<lparr>unseen := [4]\<rparr>)"
    by (simp add: fetch_latest_unread_email_def example_world_def
        mail_without_from_def credentials_missing_def extract_body_def e)
  then show ?thesis
    by (simp add: main_agent_workflow_def)
qed

text \<open>
  C10. When the fetch step returns a message whose extracted sender address is the
  empty text, the run is the run of the no-message case: it returns early with no
  classification and no send, although the message was fetched and flagged as seen.
  The \<open>From\<close> header of such a message is absent or empty.
\<close>

theorem empty_sender_is_skipped:
  assumes "fetch_latest_unread_email w = (Some (sender, subj, b), w1)"
    and "sender = []"
  shows "main_agent_workflow w = \<lparr>raised = None, events = [], final = w1\<rparr> \<and>
         unseen w \<noteq> [] \<and> unseen w1 = butlast (unseen w) \<and> outbox w1 = outbox w \<and>
         (\<exists>m. map_of (inbox w) (last (unseen w)) = Some m \<and>
              (hdr_from m = None \<or> hdr_from m = Some []))"
proof -
  have "main_agent_workflow w = \<lparr>raised = None, events = [], final = w1\<rparr>"
    using assms by (simp add: main_agent_workflow_def)
  moreover from fetch_Some [OF assms(1)] obtain m where
    "unseen w \<noteq> []" "w1 = w\<lparr>unseen := butlast (unseen w)\<rparr>"
    "map_of (inbox w) (last (unseen w)) = Some m"
    "sender = extract_sender (case hdr_from m of Some h \<Rightarrow> h | None \<Rightarrow> [])"
    by blast
  moreover from this(4) assms(2)
  have "extract_sender (case hdr_from m of Some h \<Rightarrow> h | None \<Rightarrow> []) = []"
    by simp
  then have "hdr_from m = None \<or> hdr_from m = Some []"
    by (cases "hdr_from m") (simp_all add: extract_sender_empty_iff)
  ultimately show ?thesis by auto
qed

theorem empty_sender_is_skipped_witness:
  "main_agent_workflow (answering ''{}''\<lparr>inbox := [(9, mail_with_empty_from)]\<rparr>) =
     \<lparr>raised = None, events = [],
      final = answering ''{}''\<lparr>inbox := [(9, mail_with_empty_from)], unseen := [4]\<rparr>\<rparr>"
proof -
  have e: "extract_sender [] = []"
    by code_simp
  have "fetch_latest_unread_email (answering ''{}''\<lparr>inbox := [(9, mail_with_empty_from)]\<rparr>) =
      (Some ([], ''No Subject'', []),
       answering ''{}''\<lparr>inbox := [(9, mail_with_empty_from)], unseen := [4]\<rparr>)"
    by (simp add: fetch_latest_unread_email_def answering_def example_world_def
        mail_with_empty_from_def credentials_missing_def extract_body_def e)
  from empty_sender_is_skipped [OF this refl] show ?thesis
    by simp
qed

end
